theory Spec2Isabelle
  imports Complex_Main "HOL-Library.Sublist"
begin

section \<open>Data model\<close>

text \<open>
  Exceptions that the Python code (or the library calls it makes) can raise.
\<close>

datatype error = NetworkXError | IndexError | ValueError | NetworkXPointlessConcept | MemoryError

text \<open>
  A \<^verbatim>\<open>networkx.Graph\<close> whose nodes are natural numbers: the nodes in insertion order and,
  for every node, the keys of its adjacency dictionary in insertion order.
  \<^verbatim>\<open>G.neighbors(n)\<close> raises \<^verbatim>\<open>NetworkXError\<close> when \<^verbatim>\<open>n\<close> is not a node of the graph.
\<close>

record nx_graph =
  nx_nodes :: "nat list"
  nx_adj :: "nat \<Rightarrow> nat list"

definition nx_neighbors :: "nx_graph \<Rightarrow> nat \<Rightarrow> error + nat list" where
  "nx_neighbors G n = (if n \<in> set (nx_nodes G) then Inr (nx_adj G n) else Inl NetworkXError)"

text \<open>
  The step record of the propagation trace. The two wall-clock fields
  \<^verbatim>\<open>step_time\<close> and \<^verbatim>\<open>total_time\<close> are instrumentation only and are left out.
\<close>

record step_record =
  step :: int
  received_count :: int
  propagating_count :: int
  pending_count :: int

section \<open>Propagation simulation\<close>

text \<open>
  The inner loop of both simulators:
  \<^verbatim>\<open>for neighbor in neighbors: if neighbor not in received: received.add(neighbor); new_propagating.add(neighbor)\<close>.
  The state is the pair \<open>(received, new_propagating)\<close>.
\<close>

fun inform_neighbors :: "nat list \<Rightarrow> nat set \<times> nat set \<Rightarrow> nat set \<times> nat set" where
  "inform_neighbors [] (received, new_propagating) = (received, new_propagating)"
| "inform_neighbors (neighbor # rest) (received, new_propagating) =
     (if neighbor \<notin> received
      then inform_neighbors rest (insert neighbor received, insert neighbor new_propagating)
      else inform_neighbors rest (received, new_propagating))"

text \<open>
  \<^verbatim>\<open>for node in propagating\<close> of \<^verbatim>\<open>MessagePropagationSimulator.simulate_propagation\<close>:
  the neighbours come from \<^verbatim>\<open>self.graph.neighbors(node)\<close>, which can raise.
\<close>

fun mps_send :: "nx_graph \<Rightarrow> nat list \<Rightarrow> nat set \<times> nat set \<Rightarrow> error + (nat set \<times> nat set)" where
  "mps_send G [] st = Inr st"
| "mps_send G (node # rest) st =
     (case nx_neighbors G node of
        Inl e \<Rightarrow> Inl e
      | Inr neighbors \<Rightarrow> mps_send G rest (inform_neighbors neighbors st))"

text \<open>
  \<^verbatim>\<open>for node in propagating\<close> of \<^verbatim>\<open>SimpleNetworkAnalyzer.simulate_propagation\<close>:
  the network is a \<^verbatim>\<open>defaultdict(list)\<close>, so \<^verbatim>\<open>network[node]\<close> is the empty list
  for a missing key and never raises.
\<close>

fun sna_send :: "(nat \<Rightarrow> nat list) \<Rightarrow> nat list \<Rightarrow> nat set \<times> nat set \<Rightarrow> nat set \<times> nat set" where
  "sna_send network [] st = st"
| "sna_send network (node # rest) st = sna_send network rest (inform_neighbors (network node) st)"

text \<open>
  The \<^verbatim>\<open>while propagating:\<close> loop of \<^verbatim>\<open>MessagePropagationSimulator.simulate_propagation\<close>.
  A Python set is iterated in some order; the model takes the ascending one
  (lemma \<open>mps_send_sets\<close> shows that the order does not matter).
  The result is the list of step records and whether the safety check fired
  (the diagnostic \<^verbatim>\<open>Warning: Propagation exceeded node count, stopping...\<close>).
\<close>

function mps_loop ::
  "nx_graph \<Rightarrow> nat set \<Rightarrow> nat set \<Rightarrow> nat \<Rightarrow> step_record list \<Rightarrow> error + (step_record list \<times> bool)" where
  "mps_loop G received propagating stp steps =
     (if propagating = {} then Inr (steps, False)
      else
        (case mps_send G (sorted_list_of_set propagating) (received, {}) of
           Inl e \<Rightarrow> Inl e
         | Inr (received', new_propagating) \<Rightarrow>
             (let step_data = \<lparr> step = int stp,
                                received_count = int (card received'),
                                propagating_count = int (card propagating),
                                pending_count = int (length (nx_nodes G)) - int (card received') \<rparr>;
                  steps' = steps @ [step_data];
                  stp' = stp + 1
              in if stp' > length (nx_nodes G) then Inr (steps', True)
                 else mps_loop G received' new_propagating stp' steps')))"
  by pat_completeness auto
termination
  by (relation "measure (\<lambda>(G, received, propagating, stp, steps). Suc (length (nx_nodes G)) - stp)") auto

definition mps_simulate_propagation :: "nx_graph \<Rightarrow> nat \<Rightarrow> error + (step_record list \<times> bool)" where
  "mps_simulate_propagation G origin_node = mps_loop G {origin_node} {origin_node} 0 []"

text \<open>
  The loop of \<^verbatim>\<open>SimpleNetworkAnalyzer.simulate_propagation\<close>:
  \<^verbatim>\<open>while propagating and len(received) < self.total_nodes:\<close>.
\<close>

function sna_loop ::
  "nat \<Rightarrow> (nat \<Rightarrow> nat list) \<Rightarrow> nat set \<Rightarrow> nat set \<Rightarrow> nat \<Rightarrow> step_record list \<Rightarrow> step_record list \<times> bool" where
  "sna_loop total_nodes network received propagating stp steps =
     (if propagating \<noteq> {} \<and> int (card received) < int total_nodes
      then
        (case sna_send network (sorted_list_of_set propagating) (received, {}) of
           (received', new_propagating) \<Rightarrow>
             (let step_data = \<lparr> step = int stp,
                                received_count = int (card received'),
                                propagating_count = int (card propagating),
                                pending_count = int total_nodes - int (card received') \<rparr>;
                  steps' = steps @ [step_data];
                  stp' = stp + 1
              in if stp' > total_nodes then (steps', True)
                 else sna_loop total_nodes network received' new_propagating stp' steps'))
      else (steps, False))"
  by pat_completeness auto
termination
  by (relation "measure (\<lambda>(total_nodes, network, received, propagating, stp, steps). Suc total_nodes - stp)") auto

definition sna_simulate_propagation ::
  "nat \<Rightarrow> (nat \<Rightarrow> nat list) \<Rightarrow> nat \<Rightarrow> step_record list \<times> bool" where
  "sna_simulate_propagation total_nodes network origin_node =
     sna_loop total_nodes network {origin_node} {origin_node} 0 []"

text \<open>The 6-node cycle 0-1-2-3-4-5-0.\<close>

definition cycle6_adj :: "nat \<Rightarrow> nat list" where
  "cycle6_adj n = (if n = 0 then [1, 5] else if n = 1 then [0, 2] else if n = 2 then [1, 3]
                   else if n = 3 then [2, 4] else if n = 4 then [3, 5] else if n = 5 then [4, 0] else [])"

definition cycle6 :: nx_graph where
  "cycle6 = \<lparr> nx_nodes = [0, 1, 2, 3, 4, 5], nx_adj = cycle6_adj \<rparr>"

section \<open>Graph predicates and trace properties\<close>

text \<open>
  The nodes that a set of propagating nodes sends to in one round.
\<close>

definition nbrs :: "(nat \<Rightarrow> nat list) \<Rightarrow> nat set \<Rightarrow> nat set" where
  "nbrs network P = (\<Union>p\<in>P. set (network p))"

text \<open>
  What the simulation relies on of a networkx graph: a node is stored once, and every
  neighbour is itself a node of the graph.
\<close>

definition nx_wf :: "nx_graph \<Rightarrow> bool" where
  "nx_wf G \<longleftrightarrow> distinct (nx_nodes G) \<and> (\<forall>u\<in>set (nx_nodes G). set (nx_adj G u) \<subseteq> set (nx_nodes G))"

text \<open>
  The step record that a round appends: round index \<open>k\<close>, the received set after the
  round, and the propagating set that did the sending in this round.
\<close>

definition mk_record :: "nat \<Rightarrow> nat \<Rightarrow> nat set \<Rightarrow> nat set \<Rightarrow> step_record" where
  "mk_record N k R' P = \<lparr> step = int k, received_count = int (card R'),
      propagating_count = int (card P), pending_count = int N - int (card R') \<rparr>"

text \<open>
  A trace that continues a run in which \<open>c1\<close> nodes have received the message so far and
  \<open>c2\<close> had received it one round earlier: every record carries its round index, its
  propagating count is the number of arrivals of the round before, the received count
  does not decrease, and the pending count is the complement.
\<close>

fun trace_ok :: "int \<Rightarrow> int \<Rightarrow> int \<Rightarrow> int \<Rightarrow> step_record list \<Rightarrow> bool" where
  "trace_ok N k c2 c1 [] = True"
| "trace_ok N k c2 c1 (r # rs) =
     (step r = k \<and> propagating_count r = c1 - c2 \<and> c1 \<le> received_count r \<and>
      pending_count r = N - received_count r \<and> trace_ok N (k + 1) c1 (received_count r) rs)"

text \<open>
  Connectivity: every node reaches every node along adjacency.
\<close>

definition nx_edges :: "nx_graph \<Rightarrow> (nat \<times> nat) set" where
  "nx_edges G = {(u, v). v \<in> set (nx_adj G u)}"

definition nx_connected :: "nx_graph \<Rightarrow> bool" where
  "nx_connected G \<longleftrightarrow> nx_nodes G \<noteq> [] \<and>
     (\<forall>u\<in>set (nx_nodes G). \<forall>v\<in>set (nx_nodes G). (u, v) \<in> (nx_edges G)\<^sup>*)"

text \<open>
  The loop invariant of the wavefront: the finished part of the received set is closed
  under adjacency, and every completed round has contributed at least one node.
\<close>

definition bfs_inv :: "nx_graph \<Rightarrow> nat \<Rightarrow> nat set \<Rightarrow> nat set \<Rightarrow> nat \<Rightarrow> bool" where
  "bfs_inv G origin R P k \<longleftrightarrow>
     P \<subseteq> R \<and> R \<subseteq> set (nx_nodes G) \<and> origin \<in> R \<and>
     (\<forall>u\<in>R - P. set (nx_adj G u) \<subseteq> R) \<and> k + card P \<le> card R"

text \<open>
  The trace that the specification expects for the 6-node cycle with origin 0,
  written down from the specification's words.
\<close>

definition spec_cycle6_trace :: "step_record list" where
  "spec_cycle6_trace =
     [\<lparr> step = 0, received_count = 3, propagating_count = 2, pending_count = 3 \<rparr>,
      \<lparr> step = 1, received_count = 5, propagating_count = 2, pending_count = 1 \<rparr>,
      \<lparr> step = 2, received_count = 6, propagating_count = 1, pending_count = 0 \<rparr>]"

text \<open>
  Two small connected graphs: a single edge 0-1, and a single isolated node.
\<close>

definition pair_graph :: nx_graph where
  "pair_graph = \<lparr> nx_nodes = [0, 1], nx_adj = (\<lambda>n. if n = 0 then [1] else if n = 1 then [0] else []) \<rparr>"

definition single_node :: nx_graph where
  "single_node = \<lparr> nx_nodes = [0], nx_adj = (\<lambda>n. []) \<rparr>"

text \<open>
  The propagating count of a round is the number of nodes that arrived in the round
  before it: 1 in round 0 (the origin), \<open>received_count[0] - 1\<close> in round 1, and
  \<open>received_count[k-1] - received_count[k-2]\<close> from round 2 on.
\<close>

definition senders_consistent :: "step_record list \<Rightarrow> bool" where
  "senders_consistent t \<longleftrightarrow>
     (0 < length t \<longrightarrow> propagating_count (t ! 0) = 1) \<and>
     (1 < length t \<longrightarrow> propagating_count (t ! 1) = received_count (t ! 0) - 1) \<and>
     (\<forall>i. i + 2 < length t \<longrightarrow>
        propagating_count (t ! (i + 2)) = received_count (t ! (i + 1)) - received_count (t ! i))"

text \<open>
  The received count never decreases from one record to the next, and every record has
  \<open>pending_count = N - received_count\<close>.
\<close>

definition counts_consistent :: "int \<Rightarrow> step_record list \<Rightarrow> bool" where
  "counts_consistent N t \<longleftrightarrow>
     (\<forall>i. Suc i < length t \<longrightarrow> received_count (t ! i) \<le> received_count (t ! Suc i)) \<and>
     (\<forall>i < length t. pending_count (t ! i) = N - received_count (t ! i))"

section \<open>Floating-point values and the connection probability\<close>

text \<open>
  Floats are modelled as real numbers extended with the two infinities and NaN; rounding
  is not modelled. Division, \<^verbatim>\<open>1 - x\<close> and \<^verbatim>\<open>np.power\<close> follow IEEE 754 at the
  special values: \<open>0 / 0\<close> is NaN, \<open>x\<^sup>0\<close> is 1 for every \<open>x\<close> (also for 0 and NaN),
  \<open>0\<^sup>w\<close> is 0 for \<open>w > 0\<close> and infinite for \<open>w < 0\<close>, a negative base with a fractional
  exponent gives NaN, and a comparison with NaN is false.
\<close>

datatype fval = Fin real | PInf | NInf | NaN

definition np_divide :: "real \<Rightarrow> real \<Rightarrow> fval" where
  "np_divide x y =
     (if y \<noteq> 0 then Fin (x / y) else if x = 0 then NaN else if x > 0 then PInf else NInf)"

fun np_one_minus :: "fval \<Rightarrow> fval" where
  "np_one_minus (Fin x) = Fin (1 - x)"
| "np_one_minus PInf = NInf"
| "np_one_minus NInf = PInf"
| "np_one_minus NaN = NaN"

fun np_power :: "fval \<Rightarrow> real \<Rightarrow> fval" where
  "np_power (Fin x) w =
     (if w = 0 then Fin 1
      else if x > 0 then Fin (x powr w)
      else if x = 0 then (if w > 0 then Fin 0 else PInf)
      else if w = of_int \<lfloor>w\<rfloor> then Fin (x powi \<lfloor>w\<rfloor>) else NaN)"
| "np_power PInf w = (if w = 0 then Fin 1 else if w > 0 then PInf else Fin 0)"
| "np_power NInf w =
     (if w = 0 then Fin 1
      else if w > 0 then (if w = of_int \<lfloor>w\<rfloor> \<and> odd \<lfloor>w\<rfloor> then NInf else PInf)
      else Fin 0)"
| "np_power NaN w = (if w = 0 then Fin 1 else NaN)"

fun np_less :: "real \<Rightarrow> fval \<Rightarrow> bool" where
  "np_less r (Fin p) = (r < p)"
| "np_less r PInf = True"
| "np_less r NInf = False"
| "np_less r NaN = False"

text \<open>
  \<^verbatim>\<open>np.power(1 - nearby_distances / self.max_distance, self.distance_weight)\<close>
  of \<^verbatim>\<open>OptimizedNetworkGenerator._find_geographical_neighbors\<close>.
\<close>

definition ong_probability :: "real \<Rightarrow> real \<Rightarrow> real \<Rightarrow> fval" where
  "ong_probability max_distance distance_weight d =
     np_power (np_one_minus (np_divide d max_distance)) distance_weight"

text \<open>
  The module constants of \<^verbatim>\<open>simple_large_network_test.py\<close>, and \<^verbatim>\<open>math.pow\<close>, which raises
  \<^verbatim>\<open>ValueError\<close> where \<^verbatim>\<open>np.power\<close> yields NaN or an infinity.
\<close>

definition MAX_CONNECTION_DISTANCE :: real where "MAX_CONNECTION_DISTANCE = 3 / 10"

definition DISTANCE_WEIGHT :: real where "DISTANCE_WEIGHT = 7 / 10"

definition math_pow :: "real \<Rightarrow> real \<Rightarrow> error + real" where
  "math_pow x y = (case np_power (Fin x) y of Fin r \<Rightarrow> Inr r | _ \<Rightarrow> Inl ValueError)"

text \<open>
  \<^verbatim>\<open>distance_factor = distance / MAX_CONNECTION_DISTANCE; probability = math.pow(1 - distance_factor, DISTANCE_WEIGHT)\<close>
  of \<^verbatim>\<open>SimpleNetworkAnalyzer.find_geographical_neighbors\<close>.
\<close>

definition sna_probability :: "real \<Rightarrow> error + real" where
  "sna_probability distance =
     (let distance_factor = distance / MAX_CONNECTION_DISTANCE
      in math_pow (1 - distance_factor) DISTANCE_WEIGHT)"

text \<open>
  The probability in closed form: \<open>(1 - d / max_distance)\<close> to the power
  \<open>distance_weight\<close>, where the power with exponent 0 is 1.
\<close>

definition spec_probability :: "real \<Rightarrow> real \<Rightarrow> real \<Rightarrow> real" where
  "spec_probability max_distance distance_weight d =
     (if distance_weight = 0 then 1 else (1 - d / max_distance) powr distance_weight)"

section \<open>Network properties\<close>

text \<open>
  \<^verbatim>\<open>nx.is_connected\<close> raises \<^verbatim>\<open>NetworkXPointlessConcept\<close> on the graph without nodes
  and otherwise checks that a search from the first node reaches every node.
\<close>

definition nx_is_connected :: "nx_graph \<Rightarrow> error + bool" where
  "nx_is_connected G =
     (case nx_nodes G of
        [] \<Rightarrow> Inl NetworkXPointlessConcept
      | n # _ \<Rightarrow> Inr (\<forall>v\<in>set (nx_nodes G). (n, v) \<in> (nx_edges G)\<^sup>*))"

text \<open>
  The part of \<^verbatim>\<open>NetworkAnalyzer.analyze_network_properties\<close> that decides the two optional
  entries of the result dictionary. The outcomes of \<^verbatim>\<open>nx.average_clustering\<close> and
  \<^verbatim>\<open>nx.average_shortest_path_length\<close> (a value, or an exception) are parameters. The
  entries are computed only for a connected graph; the bare \<^verbatim>\<open>except:\<close> replaces both by
  0 and infinity when either computation raises. For a disconnected graph no entry is
  added. The other entries of the dictionary are not modelled.
\<close>

definition fallback_properties :: "(string \<times> fval) list" where
  "fallback_properties = [(''average_clustering'', Fin 0), (''average_path_length'', PInf)]"

definition analyze_network_properties ::
  "nx_graph \<Rightarrow> error + real \<Rightarrow> error + real \<Rightarrow> error + (string \<times> fval) list" where
  "analyze_network_properties G clustering path_length =
     (case nx_is_connected G of
        Inl e \<Rightarrow> Inl e
      | Inr is_conn \<Rightarrow>
          Inr (if is_conn
               then (case clustering of
                       Inl e \<Rightarrow> fallback_properties
                     | Inr c \<Rightarrow>
                         (case path_length of
                            Inl e \<Rightarrow> fallback_properties
                          | Inr l \<Rightarrow> [(''average_clustering'', Fin c), (''average_path_length'', Fin l)]))
               else []))"

text \<open>
  Two nodes and no edge.
\<close>

definition two_isolated :: nx_graph where
  "two_isolated = \<lparr> nx_nodes = [0, 1], nx_adj = (\<lambda>n. []) \<rparr>"

section \<open>Network generation\<close>

text \<open>
  A position is a pair of coordinates. A random generator is modelled by its state, the
  sequence of the floats it will return: \<^verbatim>\<open>np.random.random(n)\<close> takes the
  next \<open>n\<close> of them and \<^verbatim>\<open>random.random()\<close> the next one. \<^verbatim>\<open>random.sample\<close> belongs to
  the library; it is a parameter of the model (a function from the population, the sample
  size and the generator state to the sample and the new state).
\<close>

type_synonym position = "real \<times> real"

type_synonym float_stream = "nat \<Rightarrow> real"

type_synonym sampler = "nat list \<Rightarrow> nat \<Rightarrow> float_stream \<Rightarrow> nat list \<times> float_stream"

definition np_random_random :: "nat \<Rightarrow> float_stream \<Rightarrow> real list \<times> float_stream" where
  "np_random_random n s = (map s [0..<n], (\<lambda>i. s (n + i)))"

definition random_random :: "float_stream \<Rightarrow> real \<times> float_stream" where
  "random_random s = (s 0, (\<lambda>i. s (Suc i)))"

text \<open>
  The attributes of \<^verbatim>\<open>OptimizedNetworkGenerator\<close> that the generation reads, and the
  module constant \<^verbatim>\<open>BATCH_SIZE\<close>.
\<close>

record ong_config =
  ong_total_nodes :: nat
  ong_connections_per_node :: int
  ong_max_distance :: real
  ong_distance_weight :: real

definition BATCH_SIZE :: nat where "BATCH_SIZE = 1000"

text \<open>
  The operations of \<^verbatim>\<open>nx.Graph\<close> that the generator uses. A dictionary keeps its keys in
  insertion order and holds a key once; \<^verbatim>\<open>add_edge\<close> creates missing end points, and
  \<^verbatim>\<open>has_edge\<close> is false for a missing node.
\<close>

definition nx_empty :: nx_graph where
  "nx_empty = \<lparr> nx_nodes = [], nx_adj = (\<lambda>n. []) \<rparr>"

definition nx_add_node :: "nx_graph \<Rightarrow> nat \<Rightarrow> nx_graph" where
  "nx_add_node G n =
     (if n \<in> set (nx_nodes G) then G
      else G\<lparr> nx_nodes := nx_nodes G @ [n], nx_adj := (nx_adj G)(n := []) \<rparr>)"

definition nx_add_nodes_from :: "nx_graph \<Rightarrow> nat list \<Rightarrow> nx_graph" where
  "nx_add_nodes_from G ns = fold (\<lambda>n G. nx_add_node G n) ns G"

definition dict_add :: "nat list \<Rightarrow> nat \<Rightarrow> nat list" where
  "dict_add keys k = (if k \<in> set keys then keys else keys @ [k])"

definition nx_has_edge :: "nx_graph \<Rightarrow> nat \<Rightarrow> nat \<Rightarrow> bool" where
  "nx_has_edge G u v \<longleftrightarrow> u \<in> set (nx_nodes G) \<and> v \<in> set (nx_adj G u)"

definition nx_add_edge :: "nx_graph \<Rightarrow> nat \<Rightarrow> nat \<Rightarrow> nx_graph" where
  "nx_add_edge G u v =
     (let G1 = nx_add_node (nx_add_node G u) v;
          G2 = G1\<lparr> nx_adj := (nx_adj G1)(u := dict_add (nx_adj G1 u) v) \<rparr>
      in G2\<lparr> nx_adj := (nx_adj G2)(v := dict_add (nx_adj G2 v) u) \<rparr>)"

text \<open>
  \<^verbatim>\<open>OptimizedNetworkGenerator._find_geographical_neighbors\<close>. The state is the pair of the
  numpy generator and the generator of the \<^verbatim>\<open>random\<close> module. \<^verbatim>\<open>random.sample\<close>
  raises \<^verbatim>\<open>ValueError\<close> for a negative sample size.
\<close>

definition ong_find_geographical_neighbors ::
  "sampler \<Rightarrow> ong_config \<Rightarrow> nat \<Rightarrow> position list \<Rightarrow> float_stream \<times> float_stream \<Rightarrow>
   error + (nat list \<times> (float_stream \<times> float_stream))" where
  "ong_find_geographical_neighbors sample cfg node_idx positions rng =
     (if length positions \<le> node_idx then Inl IndexError
      else
        let node_pos = positions ! node_idx;
            distances = map (\<lambda>p. sqrt ((fst p - fst node_pos)\<^sup>2 + (snd p - snd node_pos)\<^sup>2)) positions;
            nearby_mask = map (\<lambda>d. d \<le> ong_max_distance cfg) distances;
            nearby_indices = filter (\<lambda>j. nearby_mask ! j) [0..<length nearby_mask];
            nearby_indices = filter (\<lambda>j. j \<noteq> node_idx) nearby_indices;
            (candidates, np_state) =
              (if length nearby_indices > 0
               then
                 let nearby_distances = map (\<lambda>j. distances ! j) nearby_indices;
                     probabilities =
                       map (ong_probability (ong_max_distance cfg) (ong_distance_weight cfg))
                         nearby_distances;
                     (randoms, np_state) = np_random_random (length nearby_indices) (fst rng);
                     selected_mask = map2 np_less randoms probabilities
                 in (map fst (filter snd (zip nearby_indices selected_mask)), np_state)
               else ([], fst rng))
        in if int (length candidates) > ong_connections_per_node cfg
           then
             (if ong_connections_per_node cfg < 0 then Inl ValueError
              else
                let (chosen, py_state) =
                      sample candidates (nat (ong_connections_per_node cfg)) (snd rng)
                in Inr (chosen, (np_state, py_state)))
           else Inr (candidates, (np_state, snd rng)))"

text \<open>
  \<^verbatim>\<open>OptimizedNetworkGenerator._add_connections\<close>: the loop over the neighbours, and the call
  that starts the counter at 0.
\<close>

fun add_connections_loop :: "nat \<Rightarrow> nat list \<Rightarrow> nx_graph \<times> nat \<Rightarrow> nx_graph \<times> nat" where
  "add_connections_loop node_idx [] (G, connections_added) = (G, connections_added)"
| "add_connections_loop node_idx (neighbor # rest) (G, connections_added) =
     (if \<not> nx_has_edge G node_idx neighbor
      then add_connections_loop node_idx rest (nx_add_edge G node_idx neighbor, connections_added + 1)
      else add_connections_loop node_idx rest (G, connections_added))"

definition ong_add_connections :: "nx_graph \<Rightarrow> nat \<Rightarrow> nat list \<Rightarrow> nx_graph \<times> nat" where
  "ong_add_connections G node_idx neighbors = add_connections_loop node_idx neighbors (G, 0)"

text \<open>
  The inner loop \<^verbatim>\<open>for i in range(batch_start, batch_end)\<close> of
  \<^verbatim>\<open>create_geographical_network_optimized\<close>, over the list of nodes of one batch.
\<close>

fun ong_process_nodes ::
  "sampler \<Rightarrow> ong_config \<Rightarrow> position list \<Rightarrow> nat list \<Rightarrow>
   nx_graph \<times> nat \<times> (float_stream \<times> float_stream) \<Rightarrow>
   error + (nx_graph \<times> nat \<times> (float_stream \<times> float_stream))" where
  "ong_process_nodes sample cfg positions [] st = Inr st"
| "ong_process_nodes sample cfg positions (i # rest) (G, connections_added, rng) =
     (case ong_find_geographical_neighbors sample cfg i positions rng of
        Inl e \<Rightarrow> Inl e
      | Inr (neighbors, rng') \<Rightarrow>
          (case ong_add_connections G i neighbors of
             (G', added) \<Rightarrow>
               ong_process_nodes sample cfg positions rest (G', connections_added + added, rng')))"

text \<open>
  \<^verbatim>\<open>range(0, stop, step)\<close> for a positive step.
\<close>

definition py_range_step :: "nat \<Rightarrow> nat \<Rightarrow> nat list" where
  "py_range_step stop stp = map (\<lambda>k. k * stp) [0..<(stop + stp - 1) div stp]"

text \<open>
  The outer loop \<^verbatim>\<open>for batch_start in range(0, self.total_nodes, BATCH_SIZE)\<close>.
\<close>

fun ong_process_batches ::
  "sampler \<Rightarrow> ong_config \<Rightarrow> position list \<Rightarrow> nat \<Rightarrow> nat list \<Rightarrow>
   nx_graph \<times> nat \<times> (float_stream \<times> float_stream) \<Rightarrow>
   error + (nx_graph \<times> nat \<times> (float_stream \<times> float_stream))" where
  "ong_process_batches sample cfg positions batch_size [] st = Inr st"
| "ong_process_batches sample cfg positions batch_size (batch_start # rest) st =
     (let batch_end = min (batch_start + batch_size) (ong_total_nodes cfg)
      in case ong_process_nodes sample cfg positions [batch_start..<batch_end] st of
           Inl e \<Rightarrow> Inl e
         | Inr st' \<Rightarrow> ong_process_batches sample cfg positions batch_size rest st')"

text \<open>
  \<^verbatim>\<open>OptimizedNetworkGenerator.create_geographical_network_optimized\<close> with the batch size as a
  parameter; the code uses the constant \<^verbatim>\<open>BATCH_SIZE\<close>. Building \<^verbatim>\<open>pos_dict\<close> raises
  \<^verbatim>\<open>IndexError\<close> when there are fewer positions than nodes, and \<^verbatim>\<open>range\<close> raises
  \<^verbatim>\<open>ValueError\<close> for a step of 0. Node attributes are not modelled.
\<close>

definition create_with_batch_size ::
  "sampler \<Rightarrow> ong_config \<Rightarrow> nat \<Rightarrow> position list \<Rightarrow> float_stream \<times> float_stream \<Rightarrow>
   error + (nx_graph \<times> (float_stream \<times> float_stream))" where
  "create_with_batch_size sample cfg batch_size positions rng =
     (let G = nx_add_nodes_from nx_empty [0..<ong_total_nodes cfg]
      in if length positions < ong_total_nodes cfg then Inl IndexError
         else if batch_size = 0 then Inl ValueError
         else
           (case ong_process_batches sample cfg positions batch_size
                   (py_range_step (ong_total_nodes cfg) batch_size) (G, 0, rng) of
              Inl e \<Rightarrow> Inl e
            | Inr (G', connections_added, rng') \<Rightarrow> Inr (G', rng')))"

definition create_geographical_network_optimized ::
  "sampler \<Rightarrow> ong_config \<Rightarrow> position list \<Rightarrow> float_stream \<times> float_stream \<Rightarrow>
   error + (nx_graph \<times> (float_stream \<times> float_stream))" where
  "create_geographical_network_optimized sample cfg positions rng =
     create_with_batch_size sample cfg BATCH_SIZE positions rng"

text \<open>
  \<^verbatim>\<open>SimpleNetworkAnalyzer.calculate_distance\<close> and the scan
  \<^verbatim>\<open>for j, other_pos in enumerate(positions)\<close> of
  \<^verbatim>\<open>SimpleNetworkAnalyzer.find_geographical_neighbors\<close>.
\<close>

definition calculate_distance :: "position \<Rightarrow> position \<Rightarrow> real" where
  "calculate_distance pos1 pos2 =
     (let dx = fst pos1 - fst pos2; dy = snd pos1 - snd pos2 in sqrt (dx * dx + dy * dy))"

fun sna_scan ::
  "position \<Rightarrow> nat \<Rightarrow> (nat \<times> position) list \<Rightarrow> nat list \<times> float_stream \<Rightarrow>
   error + (nat list \<times> float_stream)" where
  "sna_scan node_pos node_idx [] (candidates, rng) = Inr (candidates, rng)"
| "sna_scan node_pos node_idx ((j, other_pos) # rest) (candidates, rng) =
     (if j \<noteq> node_idx
      then
        (let distance = calculate_distance node_pos other_pos
         in if distance \<le> MAX_CONNECTION_DISTANCE
            then
              (case sna_probability distance of
                 Inl e \<Rightarrow> Inl e
               | Inr probability \<Rightarrow>
                   (case random_random rng of
                      (r, rng') \<Rightarrow>
                        if r < probability
                        then sna_scan node_pos node_idx rest (candidates @ [j], rng')
                        else sna_scan node_pos node_idx rest (candidates, rng')))
            else sna_scan node_pos node_idx rest (candidates, rng))
      else sna_scan node_pos node_idx rest (candidates, rng))"

definition sna_find_geographical_neighbors ::
  "sampler \<Rightarrow> int \<Rightarrow> nat \<Rightarrow> position list \<Rightarrow> float_stream \<Rightarrow>
   error + (nat list \<times> float_stream)" where
  "sna_find_geographical_neighbors sample connections_per_node node_idx positions rng =
     (if length positions \<le> node_idx then Inl IndexError
      else
        (case sna_scan (positions ! node_idx) node_idx (enumerate 0 positions) ([], rng) of
           Inl e \<Rightarrow> Inl e
         | Inr (candidates, rng') \<Rightarrow>
             if int (length candidates) > connections_per_node
             then
               (if connections_per_node < 0 then Inl ValueError
                else
                  let (chosen, rng'') = sample candidates (nat connections_per_node) rng'
                  in Inr (chosen, rng''))
             else Inr (candidates, rng')))"

text \<open>
  The loop \<^verbatim>\<open>for neighbor in neighbors\<close> of \<^verbatim>\<open>SimpleNetworkAnalyzer.create_network\<close>: the network
  is a \<^verbatim>\<open>defaultdict(list)\<close>, a function from nodes to lists.
\<close>

fun sna_connect ::
  "nat \<Rightarrow> nat list \<Rightarrow> (nat \<Rightarrow> nat list) \<times> nat \<Rightarrow> (nat \<Rightarrow> nat list) \<times> nat" where
  "sna_connect i [] (network, total_connections) = (network, total_connections)"
| "sna_connect i (neighbor # rest) (network, total_connections) =
     (if neighbor \<notin> set (network i)
      then
        (let network1 = network(i := network i @ [neighbor]);
             network2 = network1(neighbor := network1 neighbor @ [i])
         in sna_connect i rest (network2, total_connections + 1))
      else sna_connect i rest (network, total_connections))"

fun sna_process_nodes ::
  "sampler \<Rightarrow> int \<Rightarrow> position list \<Rightarrow> nat list \<Rightarrow>
   (nat \<Rightarrow> nat list) \<times> nat \<times> float_stream \<Rightarrow>
   error + ((nat \<Rightarrow> nat list) \<times> nat \<times> float_stream)" where
  "sna_process_nodes sample connections_per_node positions [] st = Inr st"
| "sna_process_nodes sample connections_per_node positions (i # rest)
       (network, total_connections, rng) =
     (case sna_find_geographical_neighbors sample connections_per_node i positions rng of
        Inl e \<Rightarrow> Inl e
      | Inr (neighbors, rng') \<Rightarrow>
          (case sna_connect i neighbors (network, total_connections) of
             (network', total_connections') \<Rightarrow>
               sna_process_nodes sample connections_per_node positions rest
                 (network', total_connections', rng')))"

fun sna_process_batches ::
  "sampler \<Rightarrow> nat \<Rightarrow> int \<Rightarrow> position list \<Rightarrow> nat \<Rightarrow> nat list \<Rightarrow>
   (nat \<Rightarrow> nat list) \<times> nat \<times> float_stream \<Rightarrow>
   error + ((nat \<Rightarrow> nat list) \<times> nat \<times> float_stream)" where
  "sna_process_batches sample total_nodes connections_per_node positions batch_size [] st = Inr st"
| "sna_process_batches sample total_nodes connections_per_node positions batch_size
       (batch_start # rest) st =
     (let batch_end = min (batch_start + batch_size) total_nodes
      in case sna_process_nodes sample connections_per_node positions
                [batch_start..<batch_end] st of
           Inl e \<Rightarrow> Inl e
         | Inr st' \<Rightarrow>
             sna_process_batches sample total_nodes connections_per_node positions batch_size rest st')"

text \<open>
  \<^verbatim>\<open>SimpleNetworkAnalyzer.create_network\<close>, with
  \<^verbatim>\<open>batch_size = min(1000, self.total_nodes)\<close>.
\<close>

definition create_network ::
  "sampler \<Rightarrow> nat \<Rightarrow> int \<Rightarrow> position list \<Rightarrow> float_stream \<Rightarrow>
   error + ((nat \<Rightarrow> nat list) \<times> float_stream)" where
  "create_network sample total_nodes connections_per_node positions rng =
     (let batch_size = min 1000 total_nodes
      in if batch_size = 0 then Inl ValueError
         else
           (case sna_process_batches sample total_nodes connections_per_node positions batch_size
                   (py_range_step total_nodes batch_size) ((\<lambda>n. []), 0, rng) of
              Inl e \<Rightarrow> Inl e
            | Inr (network, total_connections, rng') \<Rightarrow> Inr (network, rng')))"

text \<open>
  An adjacency structure without self-loops, symmetric, and without duplicate entries.
\<close>

definition simple_adjacency :: "(nat \<Rightarrow> nat list) \<Rightarrow> bool" where
  "simple_adjacency a \<longleftrightarrow>
     (\<forall>i. i \<notin> set (a i)) \<and>
     (\<forall>i j. j \<in> set (a i) \<longleftrightarrow> i \<in> set (a j)) \<and>
     (\<forall>i. distinct (a i))"

text \<open>
  What the generation relies on of \<^verbatim>\<open>random.sample\<close>: the sample consists of elements of
  the population. Taking the first \<open>k\<close> elements is one such sampler.
\<close>

definition sample_from_population :: "sampler \<Rightarrow> bool" where
  "sample_from_population sample \<longleftrightarrow>
     (\<forall>population k rng. set (fst (sample population k rng)) \<subseteq> set population)"

definition first_k :: sampler where
  "first_k population k rng = (take k population, rng)"

text \<open>
  Example inputs: three nodes on a line at distance 1/5 with radius 3/10 and weight 1,
  two nodes at the same position, and three generator states.
\<close>

definition line3 :: "position list" where
  "line3 = [(0, 0), (1 / 5, 0), (2 / 5, 0)]"

definition cfg3 :: ong_config where
  "cfg3 = \<lparr> ong_total_nodes = 3, ong_connections_per_node = 20, ong_max_distance = 3 / 10,
            ong_distance_weight = 1 \<rparr>"

definition low_then_half :: float_stream where
  "low_then_half = (\<lambda>i. if i = 0 then 0 else 1 / 2)"

definition half :: float_stream where
  "half = (\<lambda>i. 1 / 2)"

text \<open>
  The invariant of the graph under construction.
\<close>

definition nx_inv :: "nx_graph \<Rightarrow> bool" where
  "nx_inv G \<longleftrightarrow> simple_adjacency (nx_adj G) \<and> nx_wf G \<and>
     (\<forall>u. u \<notin> set (nx_nodes G) \<longrightarrow> nx_adj G u = [])"

definition three_nodes :: nx_graph where
  "three_nodes = nx_add_nodes_from nx_empty [0..<3]"

definition twin_positions :: "position list" where
  "twin_positions = [(0, 0), (0, 0)]"

definition zeros :: float_stream where
  "zeros = (\<lambda>i. 0)"

section \<open>The rounds as set operations\<close>

lemma inform_neighbors_sets:
  "inform_neighbors ns (R, P) = (R \<union> set ns, P \<union> (set ns - R))"
  by (induction ns arbitrary: R P) auto

lemma sna_send_sets:
  "sna_send network ps (R, P) = (R \<union> nbrs network (set ps), P \<union> (nbrs network (set ps) - R))"
  by (induction ps arbitrary: R P) (auto simp: inform_neighbors_sets nbrs_def)

lemma mps_send_sna_send:
  "set ps \<subseteq> set (nx_nodes G) \<Longrightarrow> mps_send G ps st = Inr (sna_send (nx_adj G) ps st)"
  by (induction ps arbitrary: st) (auto simp: nx_neighbors_def)

lemma mps_send_sets:
  "set ps \<subseteq> set (nx_nodes G) \<Longrightarrow>
   mps_send G ps (R, P) = Inr (R \<union> nbrs (nx_adj G) (set ps), P \<union> (nbrs (nx_adj G) (set ps) - R))"
  by (simp add: mps_send_sna_send sna_send_sets)

lemma sna_loop_unfold:
  assumes "finite P"
  shows "sna_loop N network R P k acc =
     (if P \<noteq> {} \<and> card R < N then
        (if k + 1 > N then (acc @ [mk_record N k (R \<union> nbrs network P) P], True)
         else sna_loop N network (R \<union> nbrs network P) (nbrs network P - R) (k + 1)
                (acc @ [mk_record N k (R \<union> nbrs network P) P]))
      else (acc, False))"
  using assms by (subst sna_loop.simps) (simp add: sna_send_sets mk_record_def Let_def)

lemma mps_loop_unfold:
  assumes "finite P" "P \<subseteq> set (nx_nodes G)"
  shows "mps_loop G R P k acc =
     (if P = {} then Inr (acc, False)
      else if k + 1 > length (nx_nodes G)
        then Inr (acc @ [mk_record (length (nx_nodes G)) k (R \<union> nbrs (nx_adj G) P) P], True)
        else mps_loop G (R \<union> nbrs (nx_adj G) P) (nbrs (nx_adj G) P - R) (k + 1)
                (acc @ [mk_record (length (nx_nodes G)) k (R \<union> nbrs (nx_adj G) P) P]))"
  using assms by (subst mps_loop.simps) (simp add: mps_send_sets mk_record_def Let_def)

lemma nbrs_wf: "nx_wf G \<Longrightarrow> P \<subseteq> set (nx_nodes G) \<Longrightarrow> nbrs (nx_adj G) P \<subseteq> set (nx_nodes G)"
  by (auto simp: nx_wf_def nbrs_def)

lemma finite_nbrs: "finite P \<Longrightarrow> finite (nbrs network P)"
  by (simp add: nbrs_def)

section \<open>Invariants of the round loops\<close>

lemma card_round:
  assumes "finite R" "finite P"
  shows "int (card (nbrs network P - R)) = int (card (R \<union> nbrs network P)) - int (card R)"
proof -
  have f: "finite (nbrs network P)" using assms by (simp add: finite_nbrs)
  have "R \<union> nbrs network P = R \<union> (nbrs network P - R)" by auto
  moreover have "card (R \<union> (nbrs network P - R)) = card R + card (nbrs network P - R)"
    using assms f by (intro card_Un_disjoint) auto
  ultimately show ?thesis by simp
qed

lemma sna_loop_trace_ok:
  assumes "finite R" "finite P" "P \<subseteq> R"
  shows "\<exists>new w. sna_loop N network R P k acc = (acc @ new, w) \<and>
           trace_ok (int N) (int k) (int (card R) - int (card P)) (int (card R)) new"
  using assms
proof (induction "Suc N - k" arbitrary: R P k acc)
  case 0
  then show ?case
    by (subst sna_loop_unfold) (auto simp: mk_record_def card_mono finite_nbrs)
next
  case (Suc n)
  let ?R' = "R \<union> nbrs network P" and ?P' = "nbrs network P - R"
  let ?r = "mk_record N k ?R' P"
  show ?case
  proof (cases "P \<noteq> {} \<and> card R < N")
    case False
    then show ?thesis using Suc.prems by (subst sna_loop_unfold) auto
  next
    case True
    have rec: "step ?r = int k" "propagating_count ?r = int (card R) - (int (card R) - int (card P))"
      "int (card R) \<le> received_count ?r" "pending_count ?r = int N - received_count ?r"
      using Suc.prems by (auto simp: mk_record_def card_mono finite_nbrs)
    show ?thesis
    proof (cases "k + 1 > N")
      case True
      then show ?thesis using Suc.prems rec \<open>P \<noteq> {} \<and> card R < N\<close>
        by (subst sna_loop_unfold) auto
    next
      case False
      have fin: "finite ?R'" "finite ?P'" "?P' \<subseteq> ?R'"
        using Suc.prems by (auto simp: finite_nbrs)
      have m: "n = Suc N - (k + 1)" using Suc.hyps(2) by simp
      from Suc.hyps(1)[OF m fin, of "acc @ [?r]"] obtain new w where
        h: "sna_loop N network ?R' ?P' (k + 1) (acc @ [?r]) = ((acc @ [?r]) @ new, w)"
           "trace_ok (int N) (int (k + 1)) (int (card ?R') - int (card ?P')) (int (card ?R')) new"
        by blast
      have c: "int (card ?R') - int (card ?P') = int (card R)"
        using card_round[OF Suc.prems(1,2), of network] by simp
      have "sna_loop N network R P k acc = (acc @ (?r # new), w)"
        using h(1) True False Suc.prems by (subst sna_loop_unfold) auto
      moreover have "trace_ok (int N) (int k) (int (card R) - int (card P)) (int (card R)) (?r # new)"
        using h(2) rec c by (simp add: mk_record_def add.commute)
      ultimately show ?thesis by blast
    qed
  qed
qed

lemma mps_loop_trace_ok:
  assumes "nx_wf G" "finite R" "P \<subseteq> R" "P \<subseteq> set (nx_nodes G)"
  shows "\<exists>new w. mps_loop G R P k acc = Inr (acc @ new, w) \<and>
           trace_ok (int (length (nx_nodes G))) (int k) (int (card R) - int (card P)) (int (card R)) new"
  using assms(2-)
proof (induction "Suc (length (nx_nodes G)) - k" arbitrary: R P k acc)
  case 0
  then have "finite P" by (auto intro: finite_subset)
  with 0 show ?case
    by (subst mps_loop_unfold) (auto simp: mk_record_def card_mono finite_nbrs)
next
  case (Suc n)
  let ?N = "length (nx_nodes G)"
  let ?R' = "R \<union> nbrs (nx_adj G) P" and ?P' = "nbrs (nx_adj G) P - R"
  let ?r = "mk_record ?N k ?R' P"
  have finP: "finite P" using Suc.prems by (auto intro: finite_subset)
  show ?case
  proof (cases "P = {}")
    case True
    then show ?thesis using Suc.prems by (subst mps_loop_unfold) auto
  next
    case False
    have rec: "step ?r = int k" "propagating_count ?r = int (card R) - (int (card R) - int (card P))"
      "int (card R) \<le> received_count ?r" "pending_count ?r = int ?N - received_count ?r"
      using Suc.prems finP by (auto simp: mk_record_def card_mono finite_nbrs)
    show ?thesis
    proof (cases "k + 1 > ?N")
      case True
      then show ?thesis using Suc.prems rec \<open>P \<noteq> {}\<close> finP
        by (subst mps_loop_unfold) auto
    next
      case F2: False
      have fin: "finite ?R'" "?P' \<subseteq> ?R'" "?P' \<subseteq> set (nx_nodes G)"
        using Suc.prems finP nbrs_wf[OF assms(1) Suc.prems(3)] by (auto simp: finite_nbrs)
      have m: "n = Suc ?N - (k + 1)" using Suc.hyps(2) by simp
      from Suc.hyps(1)[OF m fin, of "acc @ [?r]"] obtain new w where
        h: "mps_loop G ?R' ?P' (k + 1) (acc @ [?r]) = Inr ((acc @ [?r]) @ new, w)"
           "trace_ok (int ?N) (int (k + 1)) (int (card ?R') - int (card ?P')) (int (card ?R')) new"
        by blast
      have c: "int (card ?R') - int (card ?P') = int (card R)"
        using card_round[OF Suc.prems(1) finP, of "nx_adj G"] by simp
      have "mps_loop G R P k acc = Inr (acc @ (?r # new), w)"
        using h(1) False F2 Suc.prems finP by (subst mps_loop_unfold) auto
      moreover have "trace_ok (int ?N) (int k) (int (card R) - int (card P)) (int (card R)) (?r # new)"
        using h(2) rec c by (simp add: mk_record_def add.commute)
      ultimately show ?thesis by blast
    qed
  qed
qed

lemma trace_ok_nth:
  "trace_ok N k c2 c1 rs \<Longrightarrow> i < length rs \<Longrightarrow>
     step (rs ! i) = k + int i \<and> pending_count (rs ! i) = N - received_count (rs ! i) \<and>
     c1 \<le> received_count (rs ! i)"
proof (induction rs arbitrary: k c2 c1 i)
  case Nil
  then show ?case by simp
next
  case (Cons r rs)
  show ?case
  proof (cases i)
    case 0
    then show ?thesis using Cons.prems by simp
  next
    case (Suc j)
    have "trace_ok N (k + 1) c1 (received_count r) rs" "j < length rs"
      using Cons.prems Suc by auto
    from Cons.IH[OF this] show ?thesis using Suc Cons.prems by auto
  qed
qed

lemma trace_ok_mono:
  "trace_ok N k c2 c1 rs \<Longrightarrow> Suc i < length rs \<Longrightarrow>
     received_count (rs ! i) \<le> received_count (rs ! Suc i)"
proof (induction rs arbitrary: k c2 c1 i)
  case Nil
  then show ?case by simp
next
  case (Cons r rs)
  have t: "trace_ok N (k + 1) c1 (received_count r) rs" using Cons.prems by simp
  show ?case
  proof (cases i)
    case 0
    then show ?thesis using trace_ok_nth[OF t, of 0] Cons.prems by simp
  next
    case (Suc j)
    then show ?thesis using Cons.IH[OF t, of j] Cons.prems by simp
  qed
qed

lemma trace_ok_wave:
  "trace_ok N k c2 c1 rs \<Longrightarrow>
     (0 < length rs \<longrightarrow> propagating_count (rs ! 0) = c1 - c2) \<and>
     (1 < length rs \<longrightarrow> propagating_count (rs ! 1) = received_count (rs ! 0) - c1) \<and>
     (\<forall>i. i + 2 < length rs \<longrightarrow>
        propagating_count (rs ! (i + 2)) = received_count (rs ! (i + 1)) - received_count (rs ! i))"
proof (induction rs arbitrary: k c2 c1)
  case Nil
  then show ?case by simp
next
  case (Cons r rs)
  have t: "trace_ok N (k + 1) c1 (received_count r) rs" using Cons.prems by simp
  note ih = Cons.IH[OF t]
  have a: "propagating_count ((r # rs) ! 0) = c1 - c2" using Cons.prems by simp
  have b: "1 < length (r # rs) \<longrightarrow> propagating_count ((r # rs) ! 1) = received_count ((r # rs) ! 0) - c1"
    using ih by simp
  have c: "i + 2 < length (r # rs) \<longrightarrow>
        propagating_count ((r # rs) ! (i + 2)) = received_count ((r # rs) ! (i + 1)) - received_count ((r # rs) ! i)" for i
  proof (cases i)
    case 0
    then show ?thesis using ih by simp
  next
    case (Suc j)
    then show ?thesis using ih by simp
  qed
  show ?case using a b c by blast
qed

lemma sna_loop_length:
  assumes "finite P" "k \<le> N"
  shows "\<exists>new w. sna_loop N network R P k acc = (acc @ new, w) \<and>
           k + length new \<le> Suc N \<and> (w \<longleftrightarrow> k + length new = Suc N)"
  using assms
proof (induction "Suc N - k" arbitrary: R P k acc)
  case 0
  then show ?case by simp
next
  case (Suc n)
  let ?R' = "R \<union> nbrs network P" and ?P' = "nbrs network P - R"
  let ?r = "mk_record N k ?R' P"
  show ?case
  proof (cases "P \<noteq> {} \<and> card R < N")
    case False
    then show ?thesis using Suc.prems by (subst sna_loop_unfold) auto
  next
    case True
    show ?thesis
    proof (cases "k + 1 > N")
      case T2: True
      then have "sna_loop N network R P k acc = (acc @ [?r], True)"
        using True Suc.prems by (subst sna_loop_unfold) auto
      moreover have "k + length [?r] = Suc N" using T2 Suc.prems by simp
      ultimately show ?thesis by (metis le_refl)
    next
      case False
      have fin: "finite ?P'" "k + 1 \<le> N" using Suc.prems False by (auto simp: finite_nbrs)
      have m: "n = Suc N - (k + 1)" using Suc.hyps(2) by simp
      from Suc.hyps(1)[OF m fin, of ?R' "acc @ [?r]"] obtain new w where
        h: "sna_loop N network ?R' ?P' (k + 1) (acc @ [?r]) = ((acc @ [?r]) @ new, w)"
           "k + 1 + length new \<le> Suc N" "w \<longleftrightarrow> k + 1 + length new = Suc N"
        by blast
      have "sna_loop N network R P k acc = (acc @ (?r # new), w)"
        using h(1) True False Suc.prems by (subst sna_loop_unfold) auto
      moreover have "k + length (?r # new) \<le> Suc N" "w \<longleftrightarrow> k + length (?r # new) = Suc N"
        using h(2,3) by auto
      ultimately show ?thesis by blast
    qed
  qed
qed

lemma mps_loop_length:
  assumes "nx_wf G" "finite P" "P \<subseteq> set (nx_nodes G)" "k \<le> length (nx_nodes G)"
  shows "\<exists>new w. mps_loop G R P k acc = Inr (acc @ new, w) \<and>
           k + length new \<le> Suc (length (nx_nodes G)) \<and>
           (w \<longleftrightarrow> k + length new = Suc (length (nx_nodes G)))"
  using assms(2-)
proof (induction "Suc (length (nx_nodes G)) - k" arbitrary: R P k acc)
  case 0
  then show ?case by simp
next
  case (Suc n)
  let ?N = "length (nx_nodes G)"
  let ?R' = "R \<union> nbrs (nx_adj G) P" and ?P' = "nbrs (nx_adj G) P - R"
  let ?r = "mk_record ?N k ?R' P"
  show ?case
  proof (cases "P = {}")
    case True
    then show ?thesis using Suc.prems by (subst mps_loop_unfold) auto
  next
    case False
    show ?thesis
    proof (cases "k + 1 > ?N")
      case T2: True
      then have "mps_loop G R P k acc = Inr (acc @ [?r], True)"
        using False Suc.prems by (subst mps_loop_unfold) auto
      moreover have "k + length [?r] = Suc ?N" using T2 Suc.prems by simp
      ultimately show ?thesis by (metis le_refl)
    next
      case F2: False
      have fin: "finite ?P'" "?P' \<subseteq> set (nx_nodes G)" "k + 1 \<le> ?N"
        using Suc.prems F2 nbrs_wf[OF assms(1) Suc.prems(2)] by (auto simp: finite_nbrs)
      have m: "n = Suc ?N - (k + 1)" using Suc.hyps(2) by simp
      from Suc.hyps(1)[OF m fin, of ?R' "acc @ [?r]"] obtain new w where
        h: "mps_loop G ?R' ?P' (k + 1) (acc @ [?r]) = Inr ((acc @ [?r]) @ new, w)"
           "k + 1 + length new \<le> Suc ?N" "w \<longleftrightarrow> k + 1 + length new = Suc ?N"
        by blast
      have "mps_loop G R P k acc = Inr (acc @ (?r # new), w)"
        using h(1) False F2 Suc.prems by (subst mps_loop_unfold) auto
      moreover have "k + length (?r # new) \<le> Suc ?N" "w \<longleftrightarrow> k + length (?r # new) = Suc ?N"
        using h(2,3) by auto
      ultimately show ?thesis by blast
    qed
  qed
qed

section \<open>The wavefront invariant\<close>

lemma bfs_inv_init: "origin \<in> set (nx_nodes G) \<Longrightarrow> bfs_inv G origin {origin} {origin} 0"
  by (simp add: bfs_inv_def)

lemma bfs_inv_finite: "bfs_inv G origin R P k \<Longrightarrow> finite R \<and> finite P"
  unfolding bfs_inv_def by (meson List.finite_set finite_subset)

lemma bfs_inv_step:
  assumes "nx_wf G" "bfs_inv G origin R P k" "P \<noteq> {}"
  shows "bfs_inv G origin (R \<union> nbrs (nx_adj G) P) (nbrs (nx_adj G) P - R) (k + 1)"
proof -
  let ?A = "nbrs (nx_adj G) P"
  have fin: "finite R" "finite P" using bfs_inv_finite[OF assms(2)] by auto
  have PV: "P \<subseteq> set (nx_nodes G)" using assms(2) by (auto simp: bfs_inv_def)
  have 1: "?A - R \<subseteq> R \<union> ?A" by auto
  have 2: "R \<union> ?A \<subseteq> set (nx_nodes G)"
    using nbrs_wf[OF assms(1) PV] assms(2) by (auto simp: bfs_inv_def)
  have 3: "origin \<in> R \<union> ?A" using assms(2) by (auto simp: bfs_inv_def)
  have 4: "\<forall>u\<in>(R \<union> ?A) - (?A - R). set (nx_adj G u) \<subseteq> R \<union> ?A"
  proof
    fix u assume "u \<in> (R \<union> ?A) - (?A - R)"
    then have uR: "u \<in> R" by auto
    show "set (nx_adj G u) \<subseteq> R \<union> ?A"
    proof (cases "u \<in> P")
      case True
      then show ?thesis by (auto simp: nbrs_def)
    next
      case False
      then show ?thesis using uR assms(2) by (auto simp: bfs_inv_def)
    qed
  qed
  have "card P \<ge> 1" using assms(3) fin by (simp add: Suc_leI card_gt_0_iff)
  moreover have "int (card (?A - R)) = int (card (R \<union> ?A)) - int (card R)"
    by (rule card_round[OF fin])
  moreover have "k + card P \<le> card R" using assms(2) by (simp add: bfs_inv_def)
  ultimately have 5: "k + 1 + card (?A - R) \<le> card (R \<union> ?A)" by linarith
  show ?thesis unfolding bfs_inv_def using 1 2 3 4 5 by blast
qed

lemma bfs_inv_card_le:
  assumes "nx_wf G" "bfs_inv G origin R P k"
  shows "card R \<le> length (nx_nodes G)"
proof -
  have "card R \<le> card (set (nx_nodes G))"
    using assms(2) by (auto simp: bfs_inv_def intro: card_mono)
  also have "\<dots> = length (nx_nodes G)"
    using assms(1) by (simp add: nx_wf_def distinct_card)
  finally show ?thesis .
qed

lemma bfs_inv_no_stop:
  assumes "nx_wf G" "bfs_inv G origin R P k" "P \<noteq> {}"
  shows "k + 1 \<le> length (nx_nodes G)"
proof -
  have "card P \<ge> 1" using assms(3) bfs_inv_finite[OF assms(2)] by (simp add: Suc_leI card_gt_0_iff)
  moreover have "k + card P \<le> card R" using assms(2) by (simp add: bfs_inv_def)
  ultimately show ?thesis using bfs_inv_card_le[OF assms(1,2)] by linarith
qed

lemma closed_reach:
  assumes "(u, v) \<in> (nx_edges G)\<^sup>*" "u \<in> R" "\<forall>x\<in>R. set (nx_adj G x) \<subseteq> R"
  shows "v \<in> R"
  using assms by (induction rule: rtrancl_induct) (auto simp: nx_edges_def)

lemma bfs_inv_done:
  assumes "nx_connected G" "bfs_inv G origin R {} k"
  shows "R = set (nx_nodes G)"
proof
  show "R \<subseteq> set (nx_nodes G)" using assms(2) by (simp add: bfs_inv_def)
  show "set (nx_nodes G) \<subseteq> R"
  proof
    fix v assume v: "v \<in> set (nx_nodes G)"
    have o: "origin \<in> R" "origin \<in> set (nx_nodes G)" using assms(2) by (auto simp: bfs_inv_def)
    have "(origin, v) \<in> (nx_edges G)\<^sup>*" using assms(1) o v by (simp add: nx_connected_def)
    moreover have "\<forall>x\<in>R. set (nx_adj G x) \<subseteq> R" using assms(2) by (simp add: bfs_inv_def)
    ultimately show "v \<in> R" using o(1) closed_reach by blast
  qed
qed

lemma full_card: "nx_wf G \<Longrightarrow> card (set (nx_nodes G)) = length (nx_nodes G)"
  by (simp add: nx_wf_def distinct_card)

lemma mps_loop_coverage:
  assumes "nx_wf G" "nx_connected G" "bfs_inv G origin R P k"
  shows "\<exists>new. mps_loop G R P k acc = Inr (acc @ new, False) \<and>
           (P \<noteq> {} \<longrightarrow> new \<noteq> [] \<and> received_count (last new) = int (length (nx_nodes G)))"
  using assms(3)
proof (induction "Suc (length (nx_nodes G)) - k" arbitrary: R P k acc)
  case 0
  have PV: "finite P" "P \<subseteq> set (nx_nodes G)"
    using bfs_inv_finite[OF 0(2)] 0(2) by (auto simp: bfs_inv_def)
  have "P = {}" using bfs_inv_no_stop[OF assms(1) 0(2)] 0(1) by auto
  then show ?case using PV by (subst mps_loop_unfold) auto
next
  case (Suc n)
  let ?N = "length (nx_nodes G)"
  let ?R' = "R \<union> nbrs (nx_adj G) P" and ?P' = "nbrs (nx_adj G) P - R"
  let ?r = "mk_record ?N k ?R' P"
  have PV: "finite P" "P \<subseteq> set (nx_nodes G)"
    using bfs_inv_finite[OF Suc.prems] Suc.prems by (auto simp: bfs_inv_def)
  show ?case
  proof (cases "P = {}")
    case True
    then show ?thesis using PV by (subst mps_loop_unfold) auto
  next
    case False
    have ns: "k + 1 \<le> ?N" by (rule bfs_inv_no_stop[OF assms(1) Suc.prems False])
    have inv': "bfs_inv G origin ?R' ?P' (k + 1)" by (rule bfs_inv_step[OF assms(1) Suc.prems False])
    have m: "n = Suc ?N - (k + 1)" using Suc.hyps(2) by simp
    from Suc.hyps(1)[OF m inv', of "acc @ [?r]"] obtain new where
      h: "mps_loop G ?R' ?P' (k + 1) (acc @ [?r]) = Inr ((acc @ [?r]) @ new, False)"
         "?P' \<noteq> {} \<longrightarrow> new \<noteq> [] \<and> received_count (last new) = int ?N"
      by blast
    have eq: "mps_loop G R P k acc = Inr (acc @ (?r # new), False)"
      using h(1) False ns PV by (subst mps_loop_unfold) auto
    have "received_count (last (?r # new)) = int ?N"
    proof (cases "?P' = {}")
      case True
      have f': "finite ?P'" "?P' \<subseteq> set (nx_nodes G)"
        using bfs_inv_finite[OF inv'] inv' by (auto simp: bfs_inv_def)
      have "mps_loop G ?R' ?P' (k + 1) (acc @ [?r]) = Inr (acc @ [?r], False)"
        using True f' by (subst mps_loop_unfold) auto
      with h(1) have "new = []" by simp
      moreover have "?R' = set (nx_nodes G)"
        using bfs_inv_done[OF assms(2)] inv' True by metis
      ultimately show ?thesis using full_card[OF assms(1)] by (simp add: mk_record_def)
    next
      case False
      then show ?thesis using h(2) by simp
    qed
    with eq show ?thesis by blast
  qed
qed

lemma sna_loop_coverage:
  assumes "nx_wf G" "nx_connected G" "bfs_inv G origin R P k" "P \<noteq> {}"
    "card R < length (nx_nodes G)"
  shows "\<exists>new. sna_loop (length (nx_nodes G)) (nx_adj G) R P k acc = (acc @ new, False) \<and>
           new \<noteq> [] \<and> received_count (last new) = int (length (nx_nodes G))"
  using assms(3-)
proof (induction "Suc (length (nx_nodes G)) - k" arbitrary: R P k acc)
  case 0
  then show ?case using bfs_inv_no_stop[OF assms(1) 0(2)] by auto
next
  case (Suc n)
  let ?N = "length (nx_nodes G)"
  let ?R' = "R \<union> nbrs (nx_adj G) P" and ?P' = "nbrs (nx_adj G) P - R"
  let ?r = "mk_record ?N k ?R' P"
  have PV: "finite P" using bfs_inv_finite[OF Suc.prems(1)] by simp
  have ns: "k + 1 \<le> ?N" by (rule bfs_inv_no_stop[OF assms(1) Suc.prems(1,2)])
  have inv': "bfs_inv G origin ?R' ?P' (k + 1)" by (rule bfs_inv_step[OF assms(1) Suc.prems(1,2)])
  have f': "finite ?P'" using bfs_inv_finite[OF inv'] by simp
  have m: "n = Suc ?N - (k + 1)" using Suc.hyps(2) by simp
  have unf: "sna_loop ?N (nx_adj G) R P k acc = sna_loop ?N (nx_adj G) ?R' ?P' (k + 1) (acc @ [?r])"
    using Suc.prems ns PV by (subst sna_loop_unfold) auto
  show ?case
  proof (cases "?P' \<noteq> {} \<and> card ?R' < ?N")
    case True
    from Suc.hyps(1)[OF m inv' _ _, of "acc @ [?r]"] True obtain new where
      h: "sna_loop ?N (nx_adj G) ?R' ?P' (k + 1) (acc @ [?r]) = ((acc @ [?r]) @ new, False)"
         "new \<noteq> []" "received_count (last new) = int ?N"
      by blast
    have "sna_loop ?N (nx_adj G) R P k acc = (acc @ (?r # new), False)"
      using unf h(1) by simp
    moreover have "received_count (last (?r # new)) = int ?N" using h(2,3) by simp
    ultimately show ?thesis by blast
  next
    case False
    have stop: "sna_loop ?N (nx_adj G) ?R' ?P' (k + 1) (acc @ [?r]) = (acc @ [?r], False)"
      using False f' by (subst sna_loop_unfold) auto
    have "card ?R' = ?N"
    proof (cases "?P' = {}")
      case True
      then have "?R' = set (nx_nodes G)" using bfs_inv_done[OF assms(2)] inv' by metis
      then show ?thesis using full_card[OF assms(1)] by simp
    next
      case F2: False
      then have "\<not> card ?R' < ?N" using False by blast
      then show ?thesis using bfs_inv_card_le[OF assms(1) inv'] by linarith
    qed
    then have "received_count (last [?r]) = int ?N" by (simp add: mk_record_def)
    then show ?thesis using unf stop by auto
  qed
qed

lemma sna_mps_loop_rel:
  assumes "nx_wf G" "bfs_inv G origin R P k" "P = {} \<longrightarrow> card R < length (nx_nodes G)"
  shows "\<exists>new extra.
           sna_loop (length (nx_nodes G)) (nx_adj G) R P k acc = (acc @ new, False) \<and>
           mps_loop G R P k acc = Inr (acc @ new @ extra, False) \<and>
           ((extra = [] \<and>
               (if new = [] then int (card R) else received_count (last new)) < int (length (nx_nodes G))) \<or>
            (\<exists>r. extra = [r] \<and> received_count r = int (length (nx_nodes G)) \<and> pending_count r = 0 \<and>
                 step r = int (k + length new)))"
  using assms(2-)
proof (induction "Suc (length (nx_nodes G)) - k" arbitrary: R P k acc)
  case 0
  have PV: "finite P" "P \<subseteq> set (nx_nodes G)"
    using bfs_inv_finite[OF 0(2)] 0(2) by (auto simp: bfs_inv_def)
  have "P = {}" using bfs_inv_no_stop[OF assms(1) 0(2)] 0(1) by auto
  moreover have "sna_loop (length (nx_nodes G)) (nx_adj G) R {} k acc = (acc, False)"
    by (subst sna_loop_unfold) auto
  moreover have "mps_loop G R {} k acc = Inr (acc, False)"
    by (subst mps_loop_unfold) auto
  ultimately show ?case using 0(3) by auto
next
  case (Suc n)
  let ?N = "length (nx_nodes G)"
  let ?R' = "R \<union> nbrs (nx_adj G) P" and ?P' = "nbrs (nx_adj G) P - R"
  let ?r = "mk_record ?N k ?R' P"
  have PV: "finite P" "P \<subseteq> set (nx_nodes G)" "finite R" "R \<subseteq> set (nx_nodes G)"
    using bfs_inv_finite[OF Suc.prems(1)] Suc.prems(1) by (auto simp: bfs_inv_def)
  show ?case
  proof (cases "P = {}")
    case True
    have "sna_loop ?N (nx_adj G) R P k acc = (acc, False)"
      using True by (subst sna_loop_unfold) auto
    moreover have "mps_loop G R P k acc = Inr (acc, False)"
      using True by (subst mps_loop_unfold) auto
    ultimately show ?thesis using Suc.prems(2) True by auto
  next
    case False
    have ns: "k + 1 \<le> ?N" by (rule bfs_inv_no_stop[OF assms(1) Suc.prems(1) False])
    have inv': "bfs_inv G origin ?R' ?P' (k + 1)" by (rule bfs_inv_step[OF assms(1) Suc.prems(1) False])
    have f': "finite ?P'" "?P' \<subseteq> set (nx_nodes G)"
      using bfs_inv_finite[OF inv'] inv' by (auto simp: bfs_inv_def)
    have munf: "mps_loop G R P k acc = mps_loop G ?R' ?P' (k + 1) (acc @ [?r])"
      using False ns PV by (subst mps_loop_unfold) auto
    show ?thesis
    proof (cases "card R < ?N")
      case F3: False
      have cR: "card R = ?N" using F3 bfs_inv_card_le[OF assms(1) Suc.prems(1)] by linarith
      then have "card R = card (set (nx_nodes G))" using full_card[OF assms(1)] by simp
      then have RV: "R = set (nx_nodes G)" using PV by (simp add: card_subset_eq)
      have "nbrs (nx_adj G) P \<subseteq> R" using nbrs_wf[OF assms(1) PV(2)] RV by simp
      then have e: "?R' = R" "?P' = {}" by auto
      have "sna_loop ?N (nx_adj G) R P k acc = (acc, False)"
        using F3 PV by (subst sna_loop_unfold) auto
      moreover have "mps_loop G R P k acc = Inr (acc @ [] @ [?r], False)"
        unfolding munf e by (subst mps_loop_unfold) auto
      moreover have "received_count ?r = int ?N" "pending_count ?r = 0" "step ?r = int (k + length ([]::step_record list))"
        using e cR by (auto simp: mk_record_def)
      ultimately show ?thesis by (metis append_Nil2)
    next
      case True
      have sunf: "sna_loop ?N (nx_adj G) R P k acc = sna_loop ?N (nx_adj G) ?R' ?P' (k + 1) (acc @ [?r])"
        using False True ns PV by (subst sna_loop_unfold) auto
      have pre: "?P' = {} \<longrightarrow> card ?R' < ?N"
      proof
        assume "?P' = {}"
        then have "?R' = R" by auto
        then show "card ?R' < ?N" using True by simp
      qed
      have m: "n = Suc ?N - (k + 1)" using Suc.hyps(2) by simp
      from Suc.hyps(1)[OF m inv' pre, of "acc @ [?r]"] obtain new extra where
        h: "sna_loop ?N (nx_adj G) ?R' ?P' (k + 1) (acc @ [?r]) = ((acc @ [?r]) @ new, False)"
           "mps_loop G ?R' ?P' (k + 1) (acc @ [?r]) = Inr ((acc @ [?r]) @ new @ extra, False)"
           "(extra = [] \<and> (if new = [] then int (card ?R') else received_count (last new)) < int ?N) \<or>
            (\<exists>r. extra = [r] \<and> received_count r = int ?N \<and> pending_count r = 0 \<and>
                 step r = int (k + 1 + length new))"
        by blast
      have 1: "sna_loop ?N (nx_adj G) R P k acc = (acc @ (?r # new), False)"
        using sunf h(1) by simp
      have 2: "mps_loop G R P k acc = Inr (acc @ (?r # new) @ extra, False)"
        using munf h(2) by simp
      have 3: "(extra = [] \<and> (if ?r # new = [] then int (card R) else received_count (last (?r # new))) < int ?N) \<or>
            (\<exists>r. extra = [r] \<and> received_count r = int ?N \<and> pending_count r = 0 \<and>
                 step r = int (k + length (?r # new)))"
        using h(3) by (auto simp: mk_record_def)
      show ?thesis using 1 2 3 by blast
    qed
  qed
qed

section \<open>Example graphs\<close>

lemma nx_wf_cycle6: "nx_wf cycle6"
  by (simp add: nx_wf_def cycle6_def cycle6_adj_def)

lemma nx_wf_pair_graph: "nx_wf pair_graph"
  by (simp add: nx_wf_def pair_graph_def)

lemma nx_connected_pair_graph: "nx_connected pair_graph"
  by (auto simp: nx_connected_def pair_graph_def nx_edges_def intro!: r_into_rtrancl)

lemma nx_wf_single_node: "nx_wf single_node"
  by (simp add: nx_wf_def single_node_def)

lemma nx_connected_single_node: "nx_connected single_node"
  by (simp add: nx_connected_def single_node_def)

lemma mps_cycle6: "mps_simulate_propagation cycle6 0 =
     Inr ([\<lparr> step = 0, received_count = 3, propagating_count = 1, pending_count = 3 \<rparr>,
           \<lparr> step = 1, received_count = 5, propagating_count = 2, pending_count = 1 \<rparr>,
           \<lparr> step = 2, received_count = 6, propagating_count = 2, pending_count = 0 \<rparr>,
           \<lparr> step = 3, received_count = 6, propagating_count = 1, pending_count = 0 \<rparr>], False)"
  by code_simp

lemma sna_cycle6: "sna_simulate_propagation 6 cycle6_adj 0 =
     ([\<lparr> step = 0, received_count = 3, propagating_count = 1, pending_count = 3 \<rparr>,
       \<lparr> step = 1, received_count = 5, propagating_count = 2, pending_count = 1 \<rparr>,
       \<lparr> step = 2, received_count = 6, propagating_count = 2, pending_count = 0 \<rparr>], False)"
  by code_simp

section \<open>Properties of the propagation trace\<close>

text \<open>
  Claim C2 as stated fails: neither simulator produces the three records
  (3, 2, 3), (5, 2, 1), (6, 1, 0) on the 6-node cycle.
\<close>

theorem cycle6_trace_counterexample:
  "mps_simulate_propagation cycle6 0 \<noteq> Inr (spec_cycle6_trace, False) \<and>
   mps_simulate_propagation cycle6 0 \<noteq> Inr (spec_cycle6_trace, True) \<and>
   fst (sna_simulate_propagation 6 cycle6_adj 0) \<noteq> spec_cycle6_trace"
  by (simp add: mps_cycle6 sna_cycle6 spec_cycle6_trace_def)

text \<open>
  Claim C2 (amended): on the 6-node cycle with origin 0,
  \<^verbatim>\<open>MessagePropagationSimulator.simulate_propagation\<close> produces four records
  (received, propagating, pending) = (3, 1, 3), (5, 2, 1), (6, 2, 0), (6, 1, 0) and
  \<^verbatim>\<open>SimpleNetworkAnalyzer.simulate_propagation\<close> produces the first three of them;
  both end with all 6 nodes received and without the safety stop.
\<close>

theorem cycle6_trace:
  "mps_simulate_propagation cycle6 0 =
     Inr ([\<lparr> step = 0, received_count = 3, propagating_count = 1, pending_count = 3 \<rparr>,
           \<lparr> step = 1, received_count = 5, propagating_count = 2, pending_count = 1 \<rparr>,
           \<lparr> step = 2, received_count = 6, propagating_count = 2, pending_count = 0 \<rparr>,
           \<lparr> step = 3, received_count = 6, propagating_count = 1, pending_count = 0 \<rparr>], False) \<and>
   sna_simulate_propagation 6 cycle6_adj 0 =
     ([\<lparr> step = 0, received_count = 3, propagating_count = 1, pending_count = 3 \<rparr>,
       \<lparr> step = 1, received_count = 5, propagating_count = 2, pending_count = 1 \<rparr>,
       \<lparr> step = 2, received_count = 6, propagating_count = 2, pending_count = 0 \<rparr>], False)"
  by (simp add: mps_cycle6 sna_cycle6)

lemma trace_ok_senders: "trace_ok N k 0 1 t \<Longrightarrow> senders_consistent t"
  using trace_ok_wave[of N k 0 1 t] by (simp add: senders_consistent_def)

lemma trace_ok_counts: "trace_ok N k c2 c1 t \<Longrightarrow> counts_consistent N t"
  unfolding counts_consistent_def using trace_ok_mono trace_ok_nth by blast

lemma mps_sim_trace_ok:
  assumes "nx_wf G" "origin_node \<in> set (nx_nodes G)"
  shows "\<exists>t w. mps_simulate_propagation G origin_node = Inr (t, w) \<and>
           trace_ok (int (length (nx_nodes G))) 0 0 1 t"
  using mps_loop_trace_ok[OF assms(1), of "{origin_node}" "{origin_node}" 0 "[]"] assms(2)
  by (simp add: mps_simulate_propagation_def)

lemma sna_sim_trace_ok:
  "trace_ok (int N) 0 0 1 (fst (sna_simulate_propagation N network origin_node))"
  using sna_loop_trace_ok[of "{origin_node}" "{origin_node}" N network 0 "[]"]
  by (auto simp: sna_simulate_propagation_def)

text \<open>
  Claim C3 (amended): in both simulators the propagating count of a round is the number
  of nodes that did the sending in that round, that is, the nodes newly informed in the
  round before: 1 in round 0, \<open>received_count[0] - 1\<close> in round 1, and
  \<open>received_count[k-1] - received_count[k-2]\<close> for \<open>k \<ge> 2\<close>.
\<close>

theorem propagating_count_is_previous_wave:
  assumes "nx_wf G" "origin_node \<in> set (nx_nodes G)"
  shows "(\<exists>t w. mps_simulate_propagation G origin_node = Inr (t, w) \<and> senders_consistent t) \<and>
         senders_consistent (fst (sna_simulate_propagation (length (nx_nodes G)) (nx_adj G) origin_node))"
  using mps_sim_trace_ok[OF assms] sna_sim_trace_ok trace_ok_senders by blast

text \<open>
  The hypotheses of the theorem for C3 hold on the 6-node cycle.
\<close>

theorem propagating_count_is_previous_wave_witness:
  "nx_wf cycle6 \<and> 0 \<in> set (nx_nodes cycle6) \<and>
   (\<exists>t w. mps_simulate_propagation cycle6 0 = Inr (t, w) \<and> senders_consistent t) \<and>
   senders_consistent (fst (sna_simulate_propagation (length (nx_nodes cycle6)) (nx_adj cycle6) 0))"
proof -
  have a: "nx_wf cycle6" by (rule nx_wf_cycle6)
  have b: "0 \<in> set (nx_nodes cycle6)" by (simp add: cycle6_def)
  show ?thesis using a b propagating_count_is_previous_wave[OF a b] by simp
qed

text \<open>
  Claim C3 as stated fails on the 6-node cycle: in round 0 the propagating count is 1
  while \<open>received_count[0] - 1 = 2\<close>, and in round 2 it is 2 while
  \<open>received_count[2] - received_count[1] = 1\<close>.
\<close>

theorem propagating_count_counterexample:
  "propagating_count (fst (sna_simulate_propagation 6 cycle6_adj 0) ! 0) \<noteq>
     received_count (fst (sna_simulate_propagation 6 cycle6_adj 0) ! 0) - 1 \<and>
   propagating_count (fst (sna_simulate_propagation 6 cycle6_adj 0) ! 2) \<noteq>
     received_count (fst (sna_simulate_propagation 6 cycle6_adj 0) ! 2) -
     received_count (fst (sna_simulate_propagation 6 cycle6_adj 0) ! 1)"
  by (simp add: sna_cycle6)

text \<open>
  Claim C4: for every graph and valid origin, both simulators return a trace whose
  received count is non-decreasing from each record to the next and whose records all
  satisfy \<open>pending_count = N - received_count\<close>.
\<close>

theorem received_monotone_pending_complement:
  assumes "nx_wf G" "origin_node \<in> set (nx_nodes G)"
  shows "(\<exists>t w. mps_simulate_propagation G origin_node = Inr (t, w) \<and>
            counts_consistent (int (length (nx_nodes G))) t) \<and>
         counts_consistent (int (length (nx_nodes G)))
           (fst (sna_simulate_propagation (length (nx_nodes G)) (nx_adj G) origin_node))"
  using mps_sim_trace_ok[OF assms] sna_sim_trace_ok trace_ok_counts by blast

text \<open>
  The hypotheses of the theorem for C4 hold on the 6-node cycle.
\<close>

theorem received_monotone_pending_complement_witness:
  "nx_wf cycle6 \<and> 0 \<in> set (nx_nodes cycle6) \<and>
   (\<exists>t w. mps_simulate_propagation cycle6 0 = Inr (t, w) \<and>
            counts_consistent (int (length (nx_nodes cycle6))) t) \<and>
   counts_consistent (int (length (nx_nodes cycle6)))
     (fst (sna_simulate_propagation (length (nx_nodes cycle6)) (nx_adj cycle6) 0))"
proof -
  have a: "nx_wf cycle6" by (rule nx_wf_cycle6)
  have b: "0 \<in> set (nx_nodes cycle6)" by (simp add: cycle6_def)
  show ?thesis using a b received_monotone_pending_complement[OF a b] by simp
qed

text \<open>
  Claim C5 (amended): on a non-empty connected graph with a valid origin, the trace of
  \<^verbatim>\<open>MessagePropagationSimulator.simulate_propagation\<close> is not empty and its last
  record has \<open>received_count = N\<close> and \<open>pending_count = 0\<close>; the same holds for
  \<^verbatim>\<open>SimpleNetworkAnalyzer.simulate_propagation\<close> when the graph has at least two nodes.
\<close>

theorem full_coverage_when_connected:
  assumes "nx_wf G" "nx_connected G" "origin_node \<in> set (nx_nodes G)"
  shows "(\<exists>t. mps_simulate_propagation G origin_node = Inr (t, False) \<and> t \<noteq> [] \<and>
            received_count (last t) = int (length (nx_nodes G)) \<and> pending_count (last t) = 0) \<and>
         (2 \<le> length (nx_nodes G) \<longrightarrow>
            (\<exists>t. sna_simulate_propagation (length (nx_nodes G)) (nx_adj G) origin_node = (t, False) \<and>
               t \<noteq> [] \<and> received_count (last t) = int (length (nx_nodes G)) \<and>
               pending_count (last t) = 0))"
proof -
  let ?N = "length (nx_nodes G)"
  have inv: "bfs_inv G origin_node {origin_node} {origin_node} 0"
    by (rule bfs_inv_init[OF assms(3)])
  from mps_loop_coverage[OF assms(1,2) inv, of "[]"] obtain t where
    t: "mps_simulate_propagation G origin_node = Inr (t, False)" "t \<noteq> []"
       "received_count (last t) = int ?N"
    by (auto simp: mps_simulate_propagation_def)
  obtain t' w' where "mps_simulate_propagation G origin_node = Inr (t', w')"
      "trace_ok (int ?N) 0 0 1 t'"
    using mps_sim_trace_ok[OF assms(1,3)] by blast
  with t have ok: "trace_ok (int ?N) 0 0 1 t" by simp
  have "pending_count (last t) = int ?N - received_count (last t)"
    using trace_ok_nth[OF ok, of "length t - 1"] t(2) by (simp add: last_conv_nth)
  with t have A: "\<exists>t. mps_simulate_propagation G origin_node = Inr (t, False) \<and> t \<noteq> [] \<and>
            received_count (last t) = int ?N \<and> pending_count (last t) = 0"
    by auto
  have B: "\<exists>t. sna_simulate_propagation ?N (nx_adj G) origin_node = (t, False) \<and>
               t \<noteq> [] \<and> received_count (last t) = int ?N \<and> pending_count (last t) = 0"
    if "2 \<le> ?N"
  proof -
    have c: "card {origin_node} < ?N" using that by simp
    from sna_loop_coverage[OF assms(1,2) inv _ c, of "[]"] obtain s where
      s: "sna_simulate_propagation ?N (nx_adj G) origin_node = (s, False)" "s \<noteq> []"
         "received_count (last s) = int ?N"
      by (auto simp: sna_simulate_propagation_def)
    have ok: "trace_ok (int ?N) 0 0 1 s"
      using sna_sim_trace_ok[of ?N "nx_adj G" origin_node] s(1) by simp
    have "pending_count (last s) = int ?N - received_count (last s)"
      using trace_ok_nth[OF ok, of "length s - 1"] s(2) by (simp add: last_conv_nth)
    with s show ?thesis by auto
  qed
  show ?thesis using A B by blast
qed

text \<open>
  The hypotheses of the theorem for C5 hold on the graph with the single edge 0-1.
\<close>

theorem full_coverage_when_connected_witness:
  "nx_wf pair_graph \<and> nx_connected pair_graph \<and> 0 \<in> set (nx_nodes pair_graph) \<and>
   2 \<le> length (nx_nodes pair_graph) \<and>
   (\<exists>t. mps_simulate_propagation pair_graph 0 = Inr (t, False) \<and> t \<noteq> [] \<and>
      received_count (last t) = int (length (nx_nodes pair_graph)) \<and> pending_count (last t) = 0) \<and>
   (\<exists>t. sna_simulate_propagation (length (nx_nodes pair_graph)) (nx_adj pair_graph) 0 = (t, False) \<and>
      t \<noteq> [] \<and> received_count (last t) = int (length (nx_nodes pair_graph)) \<and>
      pending_count (last t) = 0)"
proof -
  have a: "nx_wf pair_graph" by (rule nx_wf_pair_graph)
  have b: "nx_connected pair_graph" by (rule nx_connected_pair_graph)
  have c: "0 \<in> set (nx_nodes pair_graph)" by (simp add: pair_graph_def)
  have d: "2 \<le> length (nx_nodes pair_graph)" by (simp add: pair_graph_def)
  show ?thesis using a b c d full_coverage_when_connected[OF a b c] by blast
qed

text \<open>
  Claim C5 as stated fails for \<^verbatim>\<open>SimpleNetworkAnalyzer.simulate_propagation\<close> on the
  connected graph with one node: the loop guard \<^verbatim>\<open>len(received) < self.total_nodes\<close>
  is false at once, so the trace is empty and has no final record.
\<close>

theorem single_node_counterexample:
  "nx_wf single_node \<and> nx_connected single_node \<and> 0 \<in> set (nx_nodes single_node) \<and>
   sna_simulate_propagation (length (nx_nodes single_node)) (nx_adj single_node) 0 = ([], False)"
proof -
  have "sna_simulate_propagation (length (nx_nodes single_node)) (nx_adj single_node) 0 = ([], False)"
    by code_simp
  then show ?thesis
    using nx_wf_single_node nx_connected_single_node by (simp add: single_node_def)
qed

lemma mps_loop_abort:
  assumes "P \<subseteq> set (nx_nodes G)" "P \<noteq> {}"
  shows "\<exists>r. mps_loop G R P (length (nx_nodes G)) acc = Inr (acc @ [r], True) \<and>
           step r = int (length (nx_nodes G)) \<and> propagating_count r = int (card P)"
proof -
  have "finite P" using assms(1) by (auto intro: finite_subset)
  then show ?thesis using assms
    by (subst mps_loop_unfold) (auto simp: mk_record_def)
qed

lemma sna_loop_abort:
  assumes "finite P" "P \<noteq> {}" "card R < N"
  shows "\<exists>r. sna_loop N network R P N acc = (acc @ [r], True) \<and>
           step r = int N \<and> propagating_count r = int (card P)"
  using assms by (subst sna_loop_unfold) (auto simp: mk_record_def)

lemma mps_loop_cycle6_abort:
  "mps_loop cycle6 {0} {0} 6 [] =
     Inr ([\<lparr> step = 6, received_count = 3, propagating_count = 1, pending_count = 3 \<rparr>], True)"
  by code_simp

lemma sna_loop_cycle6_abort:
  "sna_loop 6 cycle6_adj {0} {0} 6 [] =
     ([\<lparr> step = 6, received_count = 3, propagating_count = 1, pending_count = 3 \<rparr>], True)"
  by code_simp

text \<open>
  Claim C7: for every graph and valid origin both simulators return (the loops are total
  functions) and the round loop runs at most \<open>N + 1\<close> times (one record per iteration).
  The same holds for the loop started in any state whose round counter \<open>k\<close> is at most
  \<open>N\<close>: it returns after at most \<open>N + 1 - k\<close> further rounds, and the safety stop with its
  diagnostic is taken exactly when the round count exceeds \<open>N\<close>. In particular a round
  that starts with the counter at \<open>N\<close> appends its record and aborts with the diagnostic
  instead of continuing.
\<close>

theorem simulation_terminates_bounded:
  assumes "nx_wf G" "origin_node \<in> set (nx_nodes G)" "P \<subseteq> set (nx_nodes G)"
    "k \<le> length (nx_nodes G)"
  shows "(\<exists>t w. mps_simulate_propagation G origin_node = Inr (t, w) \<and>
            length t \<le> length (nx_nodes G) + 1 \<and> (w \<longleftrightarrow> length t = length (nx_nodes G) + 1)) \<and>
         (\<exists>t w. sna_simulate_propagation (length (nx_nodes G)) (nx_adj G) origin_node = (t, w) \<and>
            length t \<le> length (nx_nodes G) + 1 \<and> (w \<longleftrightarrow> length t = length (nx_nodes G) + 1)) \<and>
         (\<exists>new w. mps_loop G R P k acc = Inr (acc @ new, w) \<and>
            k + length new \<le> length (nx_nodes G) + 1 \<and>
            (w \<longleftrightarrow> k + length new = length (nx_nodes G) + 1)) \<and>
         (\<exists>new w. sna_loop (length (nx_nodes G)) (nx_adj G) R P k acc = (acc @ new, w) \<and>
            k + length new \<le> length (nx_nodes G) + 1 \<and>
            (w \<longleftrightarrow> k + length new = length (nx_nodes G) + 1)) \<and>
         (P \<noteq> {} \<longrightarrow>
            (\<exists>r. mps_loop G R P (length (nx_nodes G)) acc = Inr (acc @ [r], True) \<and>
               step r = int (length (nx_nodes G)))) \<and>
         (P \<noteq> {} \<and> card R < length (nx_nodes G) \<longrightarrow>
            (\<exists>r. sna_loop (length (nx_nodes G)) (nx_adj G) R P (length (nx_nodes G)) acc =
                    (acc @ [r], True) \<and>
               step r = int (length (nx_nodes G))))"
proof -
  let ?N = "length (nx_nodes G)"
  have finP: "finite P" using assms(3) by (auto intro: finite_subset)
  have A: "\<exists>t w. mps_simulate_propagation G origin_node = Inr (t, w) \<and>
            length t \<le> ?N + 1 \<and> (w \<longleftrightarrow> length t = ?N + 1)"
    using mps_loop_length[OF assms(1), of "{origin_node}" 0 "{origin_node}" "[]"] assms(2)
    by (simp add: mps_simulate_propagation_def)
  have B: "\<exists>t w. sna_simulate_propagation ?N (nx_adj G) origin_node = (t, w) \<and>
            length t \<le> ?N + 1 \<and> (w \<longleftrightarrow> length t = ?N + 1)"
    using sna_loop_length[of "{origin_node}" 0 ?N "nx_adj G" "{origin_node}" "[]"]
    by (simp add: sna_simulate_propagation_def)
  have C: "\<exists>new w. mps_loop G R P k acc = Inr (acc @ new, w) \<and>
            k + length new \<le> ?N + 1 \<and> (w \<longleftrightarrow> k + length new = ?N + 1)"
    using mps_loop_length[OF assms(1) finP assms(3,4), of R acc] by simp
  have D: "\<exists>new w. sna_loop ?N (nx_adj G) R P k acc = (acc @ new, w) \<and>
            k + length new \<le> ?N + 1 \<and> (w \<longleftrightarrow> k + length new = ?N + 1)"
    using sna_loop_length[OF finP assms(4), of "nx_adj G" R acc] by simp
  have E: "P \<noteq> {} \<longrightarrow>
            (\<exists>r. mps_loop G R P ?N acc = Inr (acc @ [r], True) \<and> step r = int ?N)"
    using mps_loop_abort[OF assms(3), of R acc] by blast
  have F: "P \<noteq> {} \<and> card R < ?N \<longrightarrow>
            (\<exists>r. sna_loop ?N (nx_adj G) R P ?N acc = (acc @ [r], True) \<and> step r = int ?N)"
    using sna_loop_abort[OF finP, of R ?N "nx_adj G" acc] by blast
  show ?thesis using A B C D E F by blast
qed

text \<open>
  The hypotheses of the theorem for C7 hold on the 6-node cycle: started with the round
  counter at 6, both loops record one round and abort with the diagnostic.
\<close>

theorem simulation_terminates_bounded_witness:
  "nx_wf cycle6 \<and> 0 \<in> set (nx_nodes cycle6) \<and> {0} \<subseteq> set (nx_nodes cycle6) \<and>
   6 \<le> length (nx_nodes cycle6) \<and> {0::nat} \<noteq> {} \<and> card {0::nat} < length (nx_nodes cycle6) \<and>
   mps_loop cycle6 {0} {0} 6 [] =
     Inr ([\<lparr> step = 6, received_count = 3, propagating_count = 1, pending_count = 3 \<rparr>], True) \<and>
   sna_loop 6 cycle6_adj {0} {0} 6 [] =
     ([\<lparr> step = 6, received_count = 3, propagating_count = 1, pending_count = 3 \<rparr>], True) \<and>
   (\<exists>t w. mps_simulate_propagation cycle6 0 = Inr (t, w) \<and>
      length t \<le> length (nx_nodes cycle6) + 1 \<and> (w \<longleftrightarrow> length t = length (nx_nodes cycle6) + 1)) \<and>
   (\<exists>t w. sna_simulate_propagation (length (nx_nodes cycle6)) (nx_adj cycle6) 0 = (t, w) \<and>
      length t \<le> length (nx_nodes cycle6) + 1 \<and> (w \<longleftrightarrow> length t = length (nx_nodes cycle6) + 1)) \<and>
   (\<exists>r. mps_loop cycle6 {0} {0} (length (nx_nodes cycle6)) [] = Inr ([] @ [r], True) \<and>
      step r = int (length (nx_nodes cycle6))) \<and>
   (\<exists>r. sna_loop (length (nx_nodes cycle6)) (nx_adj cycle6) {0} {0} (length (nx_nodes cycle6)) [] =
           ([] @ [r], True) \<and>
      step r = int (length (nx_nodes cycle6)))"
proof -
  have a: "nx_wf cycle6" by (rule nx_wf_cycle6)
  have b: "0 \<in> set (nx_nodes cycle6)" by (simp add: cycle6_def)
  have c: "{0} \<subseteq> set (nx_nodes cycle6)" by (simp add: cycle6_def)
  have d: "6 \<le> length (nx_nodes cycle6)" by (simp add: cycle6_def)
  have e: "{0::nat} \<noteq> {}" "card {0::nat} < length (nx_nodes cycle6)" by (simp_all add: cycle6_def)
  note t = simulation_terminates_bounded[OF a b c d, of "{0}" "[]"]
  show ?thesis
    using a b c d e t mps_loop_cycle6_abort sna_loop_cycle6_abort by blast
qed

text \<open>
  Claim C10 as stated fails on the graph with the single edge 0-1:
  \<^verbatim>\<open>MessagePropagationSimulator\<close> returns two records, \<^verbatim>\<open>SimpleNetworkAnalyzer\<close> one.
\<close>

theorem simulators_differ_counterexample:
  "map_sum id fst (mps_simulate_propagation pair_graph 0) \<noteq>
     Inr (fst (sna_simulate_propagation (length (nx_nodes pair_graph)) (nx_adj pair_graph) 0)) \<and>
   map_sum id (length \<circ> fst) (mps_simulate_propagation pair_graph 0) = Inr 2 \<and>
   length (fst (sna_simulate_propagation (length (nx_nodes pair_graph)) (nx_adj pair_graph) 0)) = 1"
  by code_simp

lemma mps_sim_nonempty:
  assumes "nx_wf G" "origin_node \<in> set (nx_nodes G)"
    "mps_simulate_propagation G origin_node = Inr (t, w)"
  shows "t \<noteq> []"
proof -
  let ?N = "length (nx_nodes G)"
  let ?R' = "{origin_node} \<union> nbrs (nx_adj G) {origin_node}"
  let ?P' = "nbrs (nx_adj G) {origin_node} - {origin_node}"
  let ?r = "mk_record ?N 0 ?R' {origin_node}"
  have sub: "{origin_node} \<subseteq> set (nx_nodes G)" using assms(2) by simp
  have unf: "mps_loop G {origin_node} {origin_node} 0 [] =
      (if 0 + 1 > ?N then Inr ([] @ [?r], True) else mps_loop G ?R' ?P' (0 + 1) ([] @ [?r]))"
    using sub by (subst mps_loop_unfold) auto
  have P': "?P' \<subseteq> ?R'" "?P' \<subseteq> set (nx_nodes G)" "finite ?R'"
    using nbrs_wf[OF assms(1) sub] by (auto simp: finite_nbrs)
  obtain new w' where "mps_loop G ?R' ?P' (0 + 1) ([] @ [?r]) = Inr (([] @ [?r]) @ new, w')"
    using mps_loop_trace_ok[OF assms(1) P'(3) P'(1) P'(2), of "0 + 1" "[] @ [?r]"] by blast
  with unf assms(3) show ?thesis
    by (auto simp: mps_simulate_propagation_def split: if_splits)
qed

text \<open>
  Claim C10 (amended): for every graph and valid origin, the records of
  \<^verbatim>\<open>SimpleNetworkAnalyzer.simulate_propagation\<close> are a prefix of the records of
  \<^verbatim>\<open>MessagePropagationSimulator.simulate_propagation\<close>. Either the two sequences are
  equal and full coverage is not reached, or the latter has exactly one more record,
  with \<open>received_count = N\<close> and \<open>pending_count = 0\<close>.
\<close>

theorem simple_trace_is_prefix:
  assumes "nx_wf G" "origin_node \<in> set (nx_nodes G)"
  shows "\<exists>t extra.
           sna_simulate_propagation (length (nx_nodes G)) (nx_adj G) origin_node = (t, False) \<and>
           mps_simulate_propagation G origin_node = Inr (t @ extra, False) \<and>
           ((extra = [] \<and> t \<noteq> [] \<and> received_count (last t) < int (length (nx_nodes G))) \<or>
            (\<exists>r. extra = [r] \<and> received_count r = int (length (nx_nodes G)) \<and>
                 pending_count r = 0 \<and> step r = int (length t)))"
proof -
  let ?N = "length (nx_nodes G)"
  have inv: "bfs_inv G origin_node {origin_node} {origin_node} 0"
    by (rule bfs_inv_init[OF assms(2)])
  from sna_mps_loop_rel[OF assms(1) inv, of "[]"] obtain new extra where
    h: "sna_simulate_propagation ?N (nx_adj G) origin_node = (new, False)"
       "mps_simulate_propagation G origin_node = Inr (new @ extra, False)"
       "(extra = [] \<and> (if new = [] then int (card {origin_node}) else received_count (last new)) < int ?N) \<or>
        (\<exists>r. extra = [r] \<and> received_count r = int ?N \<and> pending_count r = 0 \<and> step r = int (length new))"
    by (auto simp: sna_simulate_propagation_def mps_simulate_propagation_def)
  have ne: "new @ extra \<noteq> []"
    using mps_sim_nonempty[OF assms h(2)] .
  have "(extra = [] \<and> new \<noteq> [] \<and> received_count (last new) < int ?N) \<or>
        (\<exists>r. extra = [r] \<and> received_count r = int ?N \<and> pending_count r = 0 \<and> step r = int (length new))"
    using h(3) ne by (cases "new = []") auto
  with h(1,2) show ?thesis by blast
qed

text \<open>
  The hypotheses of the theorem for C10 hold on the graph with the single edge 0-1.
\<close>

theorem simple_trace_is_prefix_witness:
  "nx_wf pair_graph \<and> 0 \<in> set (nx_nodes pair_graph) \<and>
   (\<exists>t extra.
      sna_simulate_propagation (length (nx_nodes pair_graph)) (nx_adj pair_graph) 0 = (t, False) \<and>
      mps_simulate_propagation pair_graph 0 = Inr (t @ extra, False) \<and>
      ((extra = [] \<and> t \<noteq> [] \<and> received_count (last t) < int (length (nx_nodes pair_graph))) \<or>
       (\<exists>r. extra = [r] \<and> received_count r = int (length (nx_nodes pair_graph)) \<and>
            pending_count r = 0 \<and> step r = int (length t))))"
proof -
  have a: "nx_wf pair_graph" by (rule nx_wf_pair_graph)
  have b: "0 \<in> set (nx_nodes pair_graph)" by (simp add: pair_graph_def)
  show ?thesis using a b simple_trace_is_prefix[OF a b] by blast
qed

section \<open>The connection probability\<close>

lemma spec_probability_range:
  assumes "0 < m" "0 \<le> w" "0 \<le> d" "d \<le> m"
  shows "0 \<le> spec_probability m w d \<and> spec_probability m w d \<le> 1"
proof -
  have b: "0 \<le> 1 - d / m" "1 - d / m \<le> 1" using assms by (auto simp: field_simps)
  have "(1 - d / m) powr w \<le> 1 powr w" by (rule powr_mono2[OF assms(2) b])
  then show ?thesis by (simp add: spec_probability_def)
qed

lemma spec_probability_antimono:
  assumes "0 < m" "0 \<le> w" "0 \<le> d" "d \<le> d'" "d' \<le> m"
  shows "spec_probability m w d' \<le> spec_probability m w d"
proof -
  have b: "0 \<le> 1 - d' / m" "1 - d' / m \<le> 1 - d / m" using assms by (auto simp: field_simps)
  have "(1 - d' / m) powr w \<le> (1 - d / m) powr w" by (rule powr_mono2[OF assms(2) b])
  then show ?thesis by (simp add: spec_probability_def)
qed

lemma ong_probability_eq:
  assumes "0 < m" "0 \<le> w" "0 \<le> d" "d \<le> m"
  shows "ong_probability m w d = Fin (spec_probability m w d)"
proof -
  have b: "0 \<le> 1 - d / m" using assms by (auto simp: field_simps)
  show ?thesis
  proof (cases "1 - d / m = 0")
    case True
    then show ?thesis using assms
      by (auto simp: ong_probability_def np_divide_def spec_probability_def)
  next
    case False
    then have "0 < 1 - d / m" using b by linarith
    then show ?thesis using assms
      by (auto simp: ong_probability_def np_divide_def spec_probability_def)
  qed
qed

lemma sna_probability_eq:
  assumes "0 \<le> d" "d \<le> MAX_CONNECTION_DISTANCE"
  shows "sna_probability d = Inr (spec_probability MAX_CONNECTION_DISTANCE DISTANCE_WEIGHT d)"
proof -
  have b: "0 \<le> 1 - d / MAX_CONNECTION_DISTANCE"
    using assms by (auto simp: MAX_CONNECTION_DISTANCE_def field_simps)
  show ?thesis
  proof (cases "1 - d / MAX_CONNECTION_DISTANCE = 0")
    case True
    then show ?thesis
      by (auto simp: sna_probability_def math_pow_def spec_probability_def DISTANCE_WEIGHT_def)
  next
    case False
    then have "0 < 1 - d / MAX_CONNECTION_DISTANCE" using b by linarith
    then show ?thesis
      by (auto simp: sna_probability_def math_pow_def spec_probability_def DISTANCE_WEIGHT_def)
  qed
qed

text \<open>
  Claim C6 as stated fails for \<open>distance_weight = 0\<close>: the probability at
  \<open>d = max_distance\<close> is then \<open>0\<^sup>0 = 1\<close>, not 0.
\<close>

theorem probability_zero_weight_counterexample:
  "ong_probability 1 0 1 = Fin 1 \<and> ong_probability 1 0 1 \<noteq> Fin 0"
  by (simp add: ong_probability_def np_divide_def)

text \<open>
  Claim C6 (amended): for \<open>max_distance\<close> in \<open>(0, 1]\<close>, \<open>distance_weight \<ge> 0\<close> and
  \<open>0 \<le> d \<le> max_distance\<close>, the probability is \<open>(1 - d / max_distance)\<close> to the power
  \<open>distance_weight\<close> (1 when the weight is 0), in both generators; it lies in \<open>[0, 1]\<close>,
  does not increase with \<open>d\<close>, is 1 at \<open>d = 0\<close>, and at \<open>d = max_distance\<close> it is 0
  when the weight is positive and 1 when the weight is 0.
\<close>

theorem connection_probability_properties:
  assumes "0 < max_distance" "max_distance \<le> 1" "0 \<le> distance_weight"
    "0 \<le> d" "d \<le> max_distance"
  shows "ong_probability max_distance distance_weight d =
           Fin (if distance_weight = 0 then 1 else (1 - d / max_distance) powr distance_weight) \<and>
         (max_distance = MAX_CONNECTION_DISTANCE \<longrightarrow>
            sna_probability d = Inr ((1 - d / MAX_CONNECTION_DISTANCE) powr DISTANCE_WEIGHT)) \<and>
         (\<exists>p. ong_probability max_distance distance_weight d = Fin p \<and> 0 \<le> p \<and> p \<le> 1 \<and>
            (\<forall>d' p'. d \<le> d' \<and> d' \<le> max_distance \<and>
               ong_probability max_distance distance_weight d' = Fin p' \<longrightarrow> p' \<le> p)) \<and>
         ong_probability max_distance distance_weight 0 = Fin 1 \<and>
         ong_probability max_distance distance_weight max_distance =
           Fin (if distance_weight = 0 then 1 else 0)"
proof -
  note e = ong_probability_eq[OF assms(1,3)]
  have 1: "ong_probability max_distance distance_weight d =
           Fin (if distance_weight = 0 then 1 else (1 - d / max_distance) powr distance_weight)"
    using e[OF assms(4,5)] by (simp add: spec_probability_def)
  have 2: "\<exists>p. ong_probability max_distance distance_weight d = Fin p \<and> 0 \<le> p \<and> p \<le> 1 \<and>
            (\<forall>d' p'. d \<le> d' \<and> d' \<le> max_distance \<and>
               ong_probability max_distance distance_weight d' = Fin p' \<longrightarrow> p' \<le> p)"
  proof (intro exI conjI allI impI)
    show "ong_probability max_distance distance_weight d =
        Fin (spec_probability max_distance distance_weight d)" by (rule e[OF assms(4,5)])
    show "0 \<le> spec_probability max_distance distance_weight d"
      "spec_probability max_distance distance_weight d \<le> 1"
      using spec_probability_range[OF assms(1,3,4,5)] by auto
  next
    fix d' p'
    assume h: "d \<le> d' \<and> d' \<le> max_distance \<and>
       ong_probability max_distance distance_weight d' = Fin p'"
    then have "0 \<le> d'" using assms(4) by linarith
    from e[OF this] h have "p' = spec_probability max_distance distance_weight d'" by simp
    then show "p' \<le> spec_probability max_distance distance_weight d"
      using spec_probability_antimono[OF assms(1,3,4)] h by simp
  qed
  have 3: "ong_probability max_distance distance_weight 0 = Fin 1"
    using e[of 0] assms(1) by (simp add: spec_probability_def)
  have 4: "ong_probability max_distance distance_weight max_distance =
           Fin (if distance_weight = 0 then 1 else 0)"
    using e[of max_distance] assms(1) by (simp add: spec_probability_def)
  have 5: "max_distance = MAX_CONNECTION_DISTANCE \<longrightarrow>
            sna_probability d = Inr ((1 - d / MAX_CONNECTION_DISTANCE) powr DISTANCE_WEIGHT)"
    using sna_probability_eq[OF assms(4)] assms(5)
    by (simp add: spec_probability_def DISTANCE_WEIGHT_def)
  show ?thesis using 1 2 3 4 5 by blast
qed

text \<open>
  The hypotheses of the theorem for C6 hold at radius 3/10, weight 1 and distance 3/20.
\<close>

theorem connection_probability_properties_witness:
  "(0::real) < 3 / 10 \<and> (3 / 10 :: real) \<le> 1 \<and> (0::real) \<le> 1 \<and> (0::real) \<le> 3 / 20 \<and>
   (3 / 20 :: real) \<le> 3 / 10 \<and> 3 / 10 = MAX_CONNECTION_DISTANCE \<and>
   ong_probability (3 / 10) 1 (3 / 20) = Fin (1 / 2) \<and>
   sna_probability (3 / 20) = Inr ((1 / 2) powr DISTANCE_WEIGHT) \<and>
   ong_probability (3 / 10) 1 0 = Fin 1 \<and>
   ong_probability (3 / 10) 1 (3 / 10) = Fin 0"
  using connection_probability_properties[of "3 / 10" 1 "3 / 20"]
  by (simp add: MAX_CONNECTION_DISTANCE_def)

section \<open>The optional network properties\<close>

lemma two_isolated_disconnected: "nx_is_connected two_isolated = Inr False"
proof -
  have "nx_edges two_isolated = {}" by (simp add: nx_edges_def two_isolated_def)
  then show ?thesis by (simp add: nx_is_connected_def two_isolated_def)
qed

lemma pair_graph_is_connected: "nx_is_connected pair_graph = Inr True"
  by (auto simp: nx_is_connected_def pair_graph_def nx_edges_def intro!: r_into_rtrancl)

text \<open>
  Claim C8 as stated fails: for the disconnected graph of two isolated nodes the result
  has no entry for \<open>average_clustering\<close> or \<open>average_path_length\<close> at all, and when the
  computation raises on a connected graph \<open>average_clustering\<close> is reported as 0.
\<close>

theorem undefined_metrics_counterexample:
  "nx_is_connected two_isolated = Inr False \<and>
   map_sum id (\<lambda>props. map_of props ''average_clustering'')
     (analyze_network_properties two_isolated (Inr 0) (Inl NetworkXError)) = Inr None \<and>
   map_sum id (\<lambda>props. map_of props ''average_path_length'')
     (analyze_network_properties two_isolated (Inr 0) (Inl NetworkXError)) = Inr None \<and>
   map_sum id (\<lambda>props. map_of props ''average_clustering'')
     (analyze_network_properties pair_graph (Inl MemoryError) (Inl MemoryError)) = Inr (Some (Fin 0))"
  by (simp add: analyze_network_properties_def two_isolated_disconnected pair_graph_is_connected
      fallback_properties_def)

text \<open>
  Claim C8 (amended): for a disconnected graph the analysis adds neither
  \<open>average_clustering\<close> nor \<open>average_path_length\<close> to its result; for a connected graph
  on which one of the two computations raises it reports \<open>average_clustering = 0\<close> and
  \<open>average_path_length = infinity\<close>; otherwise it reports the two computed values.
\<close>

theorem optional_metrics:
  assumes "nx_nodes G \<noteq> []"
  shows "\<exists>is_conn. nx_is_connected G = Inr is_conn \<and>
     (\<not> is_conn \<longrightarrow> analyze_network_properties G clustering path_length = Inr []) \<and>
     (is_conn \<and> (isl clustering \<or> isl path_length) \<longrightarrow>
        analyze_network_properties G clustering path_length =
          Inr [(''average_clustering'', Fin 0), (''average_path_length'', PInf)]) \<and>
     (is_conn \<and> \<not> isl clustering \<and> \<not> isl path_length \<longrightarrow>
        analyze_network_properties G clustering path_length =
          Inr [(''average_clustering'', Fin (projr clustering)),
               (''average_path_length'', Fin (projr path_length))])"
  using assms
  by (cases "nx_nodes G"; cases clustering; cases path_length)
     (simp_all add: analyze_network_properties_def nx_is_connected_def fallback_properties_def)

text \<open>
  The hypothesis of the theorem for C8 holds on the two isolated nodes and on the single
  edge, and each of its three cases occurs.
\<close>

theorem optional_metrics_witness:
  "nx_nodes two_isolated \<noteq> [] \<and> nx_is_connected two_isolated = Inr False \<and>
   analyze_network_properties two_isolated (Inr 0) (Inl NetworkXError) = Inr [] \<and>
   nx_nodes pair_graph \<noteq> [] \<and> nx_is_connected pair_graph = Inr True \<and>
   analyze_network_properties pair_graph (Inl MemoryError) (Inr 1) =
     Inr [(''average_clustering'', Fin 0), (''average_path_length'', PInf)] \<and>
   analyze_network_properties pair_graph (Inr 0) (Inr 1) =
     Inr [(''average_clustering'', Fin 0), (''average_path_length'', Fin 1)]"
proof -
  have a: "nx_nodes two_isolated \<noteq> []" by (simp add: two_isolated_def)
  have b: "nx_nodes pair_graph \<noteq> []" by (simp add: pair_graph_def)
  show ?thesis
    using a b two_isolated_disconnected pair_graph_is_connected
      optional_metrics[OF a, of "Inr 0" "Inl NetworkXError"]
      optional_metrics[OF b, of "Inl MemoryError" "Inr 1"]
      optional_metrics[OF b, of "Inr 0" "Inr 1"]
    by auto
qed

section \<open>The generators on the example inputs\<close>

lemma sqrt_vals: "sqrt (1 / 25) = 1 / 5" "sqrt (4 / 25) = 2 / 5"
  by (rule real_sqrt_unique; simp add: power2_eq_square)+

lemma upt3: "[0..<3] = [0, 1, 2]"
  by (simp add: upt_rec)

lemma prob3: "ong_probability (3 / 10) 1 (1 / 5) = Fin (1 / 3)"
  by (simp add: ong_probability_def np_divide_def)

lemma find0: "ong_find_geographical_neighbors first_k cfg3 0 line3 (low_then_half, half) = Inr ([1], (half, half))"
  by (simp add: ong_find_geographical_neighbors_def line3_def cfg3_def Let_def sqrt_vals upt3
      np_random_random_def prob3 low_then_half_def half_def)

lemma find0h: "ong_find_geographical_neighbors first_k cfg3 0 line3 (half, half) = Inr ([], (half, half))"
  by (simp add: ong_find_geographical_neighbors_def line3_def cfg3_def Let_def sqrt_vals upt3
      np_random_random_def prob3 half_def)

lemma find1h: "ong_find_geographical_neighbors first_k cfg3 1 line3 (half, half) = Inr ([], (half, half))"
  by (simp add: ong_find_geographical_neighbors_def line3_def cfg3_def Let_def sqrt_vals upt3
      np_random_random_def prob3 half_def)

lemma find2h: "ong_find_geographical_neighbors first_k cfg3 2 line3 (half, half) = Inr ([], (half, half))"
  by (simp add: ong_find_geographical_neighbors_def line3_def cfg3_def Let_def sqrt_vals upt3
      np_random_random_def prob3 half_def)

lemma find2: "ong_find_geographical_neighbors first_k cfg3 2 line3 (low_then_half, half) = Inr ([1], (half, half))"
  by (simp add: ong_find_geographical_neighbors_def line3_def cfg3_def Let_def sqrt_vals upt3
      np_random_random_def prob3 low_then_half_def half_def)

section \<open>Invariants of the generated graph\<close>

lemma simple_adjacency_link:
  assumes "simple_adjacency a" "u \<noteq> v"
  shows "simple_adjacency (a(u := dict_add (a u) v, v := dict_add (a v) u))"
proof -
  let ?b = "a(u := dict_add (a u) v, v := dict_add (a v) u)"
  have set_b: "set (?b i) = (if i = u then insert v (set (a u))
                               else if i = v then insert u (set (a v)) else set (a i))" for i
    using assms(2) by (auto simp: dict_add_def)
  have 1: "\<forall>i. i \<notin> set (?b i)"
    using assms unfolding set_b by (auto simp: simple_adjacency_def)
  have sym: "\<And>i j. j \<in> set (a i) \<longleftrightarrow> i \<in> set (a j)"
    using assms(1) by (simp add: simple_adjacency_def)
  have 2: "\<forall>i j. j \<in> set (?b i) \<longleftrightarrow> i \<in> set (?b j)"
    unfolding set_b using sym assms(2) by auto
  have 3: "\<forall>i. distinct (?b i)"
    using assms by (auto simp: simple_adjacency_def dict_add_def)
  show ?thesis unfolding simple_adjacency_def using 1 2 3 by blast
qed

lemma nx_inv_empty: "nx_inv nx_empty"
  by (simp add: nx_inv_def nx_empty_def simple_adjacency_def nx_wf_def)

lemma nx_inv_add_node:
  assumes "nx_inv G"
  shows "nx_inv (nx_add_node G n)"
proof (cases "n \<in> set (nx_nodes G)")
  case True
  then show ?thesis using assms by (simp add: nx_add_node_def)
next
  case False
  then have e: "nx_adj G n = []" using assms by (simp add: nx_inv_def)
  then have "(nx_adj G)(n := []) = nx_adj G" by auto
  then show ?thesis using assms False
    by (auto simp: nx_add_node_def nx_inv_def nx_wf_def)
qed

lemma nx_add_node_nodes: "set (nx_nodes (nx_add_node G n)) = insert n (set (nx_nodes G))"
  by (auto simp: nx_add_node_def)

lemma nx_add_node_adj: "nx_inv G \<Longrightarrow> nx_adj (nx_add_node G n) = nx_adj G"
  by (auto simp: nx_add_node_def nx_inv_def)

lemma nx_inv_add_edge:
  assumes "nx_inv G" "u \<noteq> v"
  shows "nx_inv (nx_add_edge G u v)"
proof -
  let ?G1 = "nx_add_node (nx_add_node G u) v"
  have i1: "nx_inv ?G1" by (intro nx_inv_add_node assms(1))
  have n1: "u \<in> set (nx_nodes ?G1)" "v \<in> set (nx_nodes ?G1)"
    by (simp_all add: nx_add_node_nodes)
  let ?a = "nx_adj ?G1"
  have shape: "nx_add_edge G u v =
      ?G1\<lparr> nx_adj := ?a(u := dict_add (?a u) v, v := dict_add (?a v) u) \<rparr>"
    using assms(2) by (simp add: nx_add_edge_def Let_def)
  have s: "simple_adjacency (?a(u := dict_add (?a u) v, v := dict_add (?a v) u))"
    using i1 assms(2) by (intro simple_adjacency_link) (simp_all add: nx_inv_def)
  have wf: "nx_wf ?G1" and cl: "\<forall>x. x \<notin> set (nx_nodes ?G1) \<longrightarrow> ?a x = []"
    using i1 by (simp_all add: nx_inv_def)
  have w: "nx_wf (?G1\<lparr> nx_adj := ?a(u := dict_add (?a u) v, v := dict_add (?a v) u) \<rparr>)"
    using wf n1 by (auto simp: nx_wf_def dict_add_def)
  have c: "\<forall>x. x \<notin> set (nx_nodes ?G1) \<longrightarrow>
      (?a(u := dict_add (?a u) v, v := dict_add (?a v) u)) x = []"
    using cl n1 by auto
  show ?thesis unfolding shape nx_inv_def using s w c by simp
qed

lemma nx_inv_add_connections_loop:
  assumes "nx_inv G" "node_idx \<notin> set neighbors"
    "add_connections_loop node_idx neighbors (G, n) = (G', n')"
  shows "nx_inv G'"
  using assms
proof (induction neighbors arbitrary: G n)
  case Nil
  then show ?case by simp
next
  case (Cons nb rest)
  have ne: "node_idx \<noteq> nb" "node_idx \<notin> set rest" using Cons.prems(2) by auto
  show ?case
  proof (cases "nx_has_edge G node_idx nb")
    case True
    then show ?thesis using Cons.IH[OF Cons.prems(1) ne(2)] Cons.prems(3) by simp
  next
    case False
    have "nx_inv (nx_add_edge G node_idx nb)" by (rule nx_inv_add_edge[OF Cons.prems(1) ne(1)])
    then show ?thesis using Cons.IH[OF _ ne(2)] Cons.prems(3) False by simp
  qed
qed

lemma set_mask_select: "set (map fst (filter snd (zip xs m))) \<subseteq> set xs"
  by (auto dest: set_zip_leftD)

lemma ong_find_not_self:
  assumes "sample_from_population sample"
    "ong_find_geographical_neighbors sample cfg node_idx positions rng = Inr (cands, rng')"
  shows "node_idx \<notin> set cands"
proof -
  define distances where
    "distances = map (\<lambda>p. sqrt ((fst p - fst (positions ! node_idx))\<^sup>2 +
                                 (snd p - snd (positions ! node_idx))\<^sup>2)) positions"
  define nearby where
    "nearby = filter (\<lambda>j. j \<noteq> node_idx)
       (filter (\<lambda>j. map (\<lambda>d. d \<le> ong_max_distance cfg) distances ! j)
          [0..<length (map (\<lambda>d. d \<le> ong_max_distance cfg) distances)])"
  define sel where
    "sel = (if length nearby > 0
            then
              let nearby_distances = map (\<lambda>j. distances ! j) nearby;
                  probabilities =
                    map (ong_probability (ong_max_distance cfg) (ong_distance_weight cfg))
                      nearby_distances;
                  (randoms, np_state) = np_random_random (length nearby) (fst rng);
                  selected_mask = map2 np_less randoms probabilities
              in (map fst (filter snd (zip nearby selected_mask)), np_state)
            else ([], fst rng))"
  have nb: "node_idx \<notin> set nearby" by (simp add: nearby_def)
  have "set (fst sel) \<subseteq> set nearby"
    unfolding sel_def using set_mask_select
    by (auto simp: Let_def split: prod.splits dest: set_zip_leftD)
  then have s: "node_idx \<notin> set (fst sel)" using nb by blast
  have eq: "ong_find_geographical_neighbors sample cfg node_idx positions rng =
     (if length positions \<le> node_idx then Inl IndexError
      else if int (length (fst sel)) > ong_connections_per_node cfg
           then
             (if ong_connections_per_node cfg < 0 then Inl ValueError
              else
                let (chosen, py_state) =
                      sample (fst sel) (nat (ong_connections_per_node cfg)) (snd rng)
                in Inr (chosen, (snd sel, py_state)))
           else Inr (fst sel, (snd sel, snd rng)))"
    unfolding ong_find_geographical_neighbors_def sel_def nearby_def distances_def Let_def
    by (simp split: prod.splits)
  show ?thesis
  proof (cases "int (length (fst sel)) > ong_connections_per_node cfg")
    case True
    then have
      c: "cands = fst (sample (fst sel) (nat (ong_connections_per_node cfg)) (snd rng))"
      using assms(2) unfolding eq by (auto split: if_splits prod.splits)
    have "set cands \<subseteq> set (fst sel)"
      unfolding c using assms(1) by (simp add: sample_from_population_def)
    then show ?thesis using s by blast
  next
    case False
    then have "cands = fst sel" using assms(2) unfolding eq by (auto split: if_splits)
    then show ?thesis using s by simp
  qed
qed

lemma nx_inv_process_nodes:
  assumes "sample_from_population sample" "nx_inv G"
    "ong_process_nodes sample cfg positions nodes (G, n, rng) = Inr (G', n', rng')"
  shows "nx_inv G'"
  using assms(2,3)
proof (induction nodes arbitrary: G n rng)
  case Nil
  then show ?case by simp
next
  case (Cons i rest)
  from Cons.prems(2) obtain neighbors rng1 where
    f: "ong_find_geographical_neighbors sample cfg i positions rng = Inr (neighbors, rng1)"
    by (auto split: sum.splits)
  obtain G1 added where a: "ong_add_connections G i neighbors = (G1, added)"
    by (cases "ong_add_connections G i neighbors")
  have "i \<notin> set neighbors" by (rule ong_find_not_self[OF assms(1) f])
  then have "nx_inv G1"
    using nx_inv_add_connections_loop[OF Cons.prems(1)] a by (simp add: ong_add_connections_def)
  moreover have "ong_process_nodes sample cfg positions rest (G1, n + added, rng1) = Inr (G', n', rng')"
    using Cons.prems(2) f a by simp
  ultimately show ?case by (rule Cons.IH)
qed

lemma nx_inv_process_batches:
  assumes "sample_from_population sample" "nx_inv G"
    "ong_process_batches sample cfg positions b starts (G, n, rng) = Inr (G', n', rng')"
  shows "nx_inv G'"
  using assms(2,3)
proof (induction starts arbitrary: G n rng)
  case Nil
  then show ?case by simp
next
  case (Cons s rest)
  let ?nodes = "[s..<min (s + b) (ong_total_nodes cfg)]"
  from Cons.prems(2) obtain G1 n1 rng1 where
    p: "ong_process_nodes sample cfg positions ?nodes (G, n, rng) = Inr (G1, n1, rng1)"
    by (auto simp: Let_def split: sum.splits)
  have "nx_inv G1" by (rule nx_inv_process_nodes[OF assms(1) Cons.prems(1) p])
  moreover have "ong_process_batches sample cfg positions b rest (G1, n1, rng1) = Inr (G', n', rng')"
    using Cons.prems(2) p by (simp add: Let_def)
  ultimately show ?case by (rule Cons.IH)
qed

lemma nx_inv_add_nodes_from: "nx_inv G \<Longrightarrow> nx_inv (nx_add_nodes_from G ns)"
  unfolding nx_add_nodes_from_def
  by (induction ns arbitrary: G) (simp_all add: nx_inv_add_node)

lemma nx_inv_create:
  assumes "sample_from_population sample"
    "create_with_batch_size sample cfg b positions rng = Inr (G, rng')"
  shows "nx_inv G"
proof -
  let ?G0 = "nx_add_nodes_from nx_empty [0..<ong_total_nodes cfg]"
  have i0: "nx_inv ?G0" by (intro nx_inv_add_nodes_from nx_inv_empty)
  from assms(2) obtain n where
    "ong_process_batches sample cfg positions b (py_range_step (ong_total_nodes cfg) b)
       (?G0, 0, rng) = Inr (G, n, rng')"
    by (auto simp: create_with_batch_size_def Let_def split: if_splits sum.splits)
  then show ?thesis by (rule nx_inv_process_batches[OF assms(1) i0])
qed

lemma sna_scan_not_self:
  assumes "sna_scan node_pos node_idx xs (cands, rng) = Inr (cands', rng')"
    "node_idx \<notin> set cands"
  shows "node_idx \<notin> set cands'"
  using assms
proof (induction xs arbitrary: cands rng)
  case Nil
  then show ?case by simp
next
  case (Cons x xs)
  obtain j other_pos where x: "x = (j, other_pos)" by (cases x)
  show ?case
  proof (cases "j \<noteq> node_idx \<and> calculate_distance node_pos other_pos \<le> MAX_CONNECTION_DISTANCE")
    case False
    then have "sna_scan node_pos node_idx xs (cands, rng) = Inr (cands', rng')"
      using Cons.prems(1) x by (auto simp: Let_def split: if_splits)
    then show ?thesis using Cons.IH Cons.prems(2) by blast
  next
    case True
    then obtain probability where
      p: "sna_probability (calculate_distance node_pos other_pos) = Inr probability"
      using Cons.prems(1) x by (auto simp: Let_def split: sum.splits)
    obtain r rng1 where r: "random_random rng = (r, rng1)" by (cases "random_random rng")
    show ?thesis
    proof (cases "r < probability")
      case T2: True
      then have "sna_scan node_pos node_idx xs (cands @ [j], rng1) = Inr (cands', rng')"
        using Cons.prems(1) x True p r by (simp add: Let_def)
      moreover have "node_idx \<notin> set (cands @ [j])" using True Cons.prems(2) by auto
      ultimately show ?thesis using Cons.IH by blast
    next
      case F2: False
      then have "sna_scan node_pos node_idx xs (cands, rng1) = Inr (cands', rng')"
        using Cons.prems(1) x True p r by (simp add: Let_def)
      then show ?thesis using Cons.IH Cons.prems(2) by blast
    qed
  qed
qed

lemma sna_find_not_self:
  assumes "sample_from_population sample"
    "sna_find_geographical_neighbors sample cpn node_idx positions rng = Inr (cands, rng')"
  shows "node_idx \<notin> set cands"
proof -
  from assms(2) obtain c1 rng1 where
    s: "sna_scan (positions ! node_idx) node_idx (enumerate 0 positions) ([], rng) = Inr (c1, rng1)"
    by (auto simp: sna_find_geographical_neighbors_def split: if_splits sum.splits)
  have n1: "node_idx \<notin> set c1" using sna_scan_not_self[OF s] by simp
  show ?thesis
  proof (cases "int (length c1) > cpn")
    case True
    then have "cands = fst (sample c1 (nat cpn) rng1)"
      using assms(2) s
      by (auto simp: sna_find_geographical_neighbors_def split: if_splits prod.splits)
    then have "set cands \<subseteq> set c1" using assms(1) by (simp add: sample_from_population_def)
    then show ?thesis using n1 by blast
  next
    case False
    then have "cands = c1" using assms(2) s
      by (auto simp: sna_find_geographical_neighbors_def split: if_splits)
    then show ?thesis using n1 by simp
  qed
qed

lemma simple_adjacency_connect:
  assumes "simple_adjacency network" "i \<notin> set neighbors"
    "sna_connect i neighbors (network, n) = (network', n')"
  shows "simple_adjacency network'"
  using assms
proof (induction neighbors arbitrary: network n)
  case Nil
  then show ?case by simp
next
  case (Cons nb rest)
  have ne: "i \<noteq> nb" "i \<notin> set rest" using Cons.prems(2) by auto
  show ?case
  proof (cases "nb \<in> set (network i)")
    case True
    then show ?thesis using Cons.IH[OF Cons.prems(1) ne(2)] Cons.prems(3) by simp
  next
    case False
    let ?n1 = "network(i := network i @ [nb])"
    let ?n2 = "?n1(nb := ?n1 nb @ [i])"
    have "i \<notin> set (network nb)" using False Cons.prems(1) by (simp add: simple_adjacency_def)
    then have "?n2 = network(i := dict_add (network i) nb, nb := dict_add (network nb) i)"
      using False ne(1) by (auto simp: dict_add_def)
    then have "simple_adjacency ?n2"
      using simple_adjacency_link[OF Cons.prems(1) ne(1)] by simp
    moreover have "sna_connect i rest (?n2, n + 1) = (network', n')"
      using Cons.prems(3) False by (simp add: Let_def)
    ultimately show ?thesis using Cons.IH ne(2) by blast
  qed
qed

lemma simple_adjacency_process_nodes:
  assumes "sample_from_population sample" "simple_adjacency network"
    "sna_process_nodes sample cpn positions nodes (network, n, rng) = Inr (network', n', rng')"
  shows "simple_adjacency network'"
  using assms(2,3)
proof (induction nodes arbitrary: network n rng)
  case Nil
  then show ?case by simp
next
  case (Cons i rest)
  from Cons.prems(2) obtain neighbors rng1 where
    f: "sna_find_geographical_neighbors sample cpn i positions rng = Inr (neighbors, rng1)"
    by (auto split: sum.splits)
  obtain nw1 n1 where c: "sna_connect i neighbors (network, n) = (nw1, n1)"
    by (cases "sna_connect i neighbors (network, n)")
  have "i \<notin> set neighbors" by (rule sna_find_not_self[OF assms(1) f])
  then have "simple_adjacency nw1" using simple_adjacency_connect[OF Cons.prems(1) _ c] by simp
  moreover have "sna_process_nodes sample cpn positions rest (nw1, n1, rng1) = Inr (network', n', rng')"
    using Cons.prems(2) f c by simp
  ultimately show ?case by (rule Cons.IH)
qed

lemma simple_adjacency_process_batches:
  assumes "sample_from_population sample" "simple_adjacency network"
    "sna_process_batches sample N cpn positions b starts (network, n, rng) = Inr (network', n', rng')"
  shows "simple_adjacency network'"
  using assms(2,3)
proof (induction starts arbitrary: network n rng)
  case Nil
  then show ?case by simp
next
  case (Cons s rest)
  let ?nodes = "[s..<min (s + b) N]"
  from Cons.prems(2) obtain nw1 n1 rng1 where
    p: "sna_process_nodes sample cpn positions ?nodes (network, n, rng) = Inr (nw1, n1, rng1)"
    by (auto simp: Let_def split: sum.splits)
  have "simple_adjacency nw1" by (rule simple_adjacency_process_nodes[OF assms(1) Cons.prems(1) p])
  moreover have "sna_process_batches sample N cpn positions b rest (nw1, n1, rng1) = Inr (network', n', rng')"
    using Cons.prems(2) p by (simp add: Let_def)
  ultimately show ?case by (rule Cons.IH)
qed

lemma simple_adjacency_create_network:
  assumes "sample_from_population sample"
    "create_network sample N cpn positions rng = Inr (network, rng')"
  shows "simple_adjacency network"
proof -
  have i0: "simple_adjacency (\<lambda>n. [])" by (simp add: simple_adjacency_def)
  from assms(2) obtain n where
    "sna_process_batches sample N cpn positions (min 1000 N) (py_range_step N (min 1000 N))
       ((\<lambda>n. []), 0, rng) = Inr (network, n, rng')"
    by (auto simp: create_network_def Let_def split: if_splits sum.splits)
  then show ?thesis by (rule simple_adjacency_process_batches[OF assms(1) i0])
qed

section \<open>Batches\<close>

lemma ong_process_nodes_append:
  "ong_process_nodes sample cfg positions (xs @ ys) st =
     (case ong_process_nodes sample cfg positions xs st of
        Inl e \<Rightarrow> Inl e
      | Inr st' \<Rightarrow> ong_process_nodes sample cfg positions ys st')"
proof (induction xs arbitrary: st)
  case Nil
  then show ?case by simp
next
  case (Cons i xs)
  obtain G n rng where st: "st = (G, n, rng)" by (cases st)
  show ?case unfolding st using Cons.IH by (simp split: sum.splits prod.splits)
qed

lemma ong_process_batches_concat:
  "ong_process_batches sample cfg positions b starts st =
     ong_process_nodes sample cfg positions
       (concat (map (\<lambda>s. [s..<min (s + b) (ong_total_nodes cfg)]) starts)) st"
proof (induction starts arbitrary: st)
  case Nil
  then show ?case by simp
next
  case (Cons s rest)
  show ?case using Cons.IH by (simp add: Let_def ong_process_nodes_append split: sum.splits)
qed

lemma batch_count_less:
  fixes b j N :: nat
  assumes "0 < b" "j < (N + b - 1) div b"
  shows "j * b < N"
proof -
  have "Suc j \<le> (N + b - 1) div b" using assms(2) by simp
  then have "Suc j * b \<le> (N + b - 1) div b * b" by (rule mult_le_mono1)
  also have "\<dots> \<le> N + b - 1" by (simp add: div_times_less_eq_dividend)
  finally show ?thesis using assms(1) by simp
qed

lemma batch_count_covers:
  fixes b N :: nat
  assumes "0 < b"
  shows "N \<le> (N + b - 1) div b * b"
proof -
  have "N + b - 1 = (N + b - 1) div b * b + (N + b - 1) mod b" by simp
  moreover have "(N + b - 1) mod b < b" using assms by simp
  ultimately show ?thesis by linarith
qed

lemma concat_batches_prefix:
  assumes "0 < b" "j \<le> (N + b - 1) div b"
  shows "concat (map (\<lambda>s. [s..<min (s + b) N]) (map (\<lambda>k. k * b) [0..<j])) = [0..<min (j * b) N]"
  using assms(2)
proof (induction j)
  case 0
  then show ?case by simp
next
  case (Suc j)
  have lt: "j * b < N" using batch_count_less[OF assms(1)] Suc.prems by simp
  have ih: "concat (map (\<lambda>s. [s..<min (s + b) N]) (map (\<lambda>k. k * b) [0..<j])) = [0..<j * b]"
    using Suc lt by simp
  obtain k where k: "min (j * b + b) N = j * b + k"
    using lt by (metis le_add1 less_or_eq_imp_le min.bounded_iff le_Suc_ex)
  have "[0..<j * b] @ [j * b..<min (j * b + b) N] = [0..<min (j * b + b) N]"
    unfolding k using upt_add_eq_append[of 0 "j * b" k] by simp
  then show ?case using ih by (simp add: add.commute)
qed

lemma concat_batches:
  assumes "0 < b"
  shows "concat (map (\<lambda>s. [s..<min (s + b) N]) (py_range_step N b)) = [0..<N]"
  using concat_batches_prefix[OF assms le_refl, of N] batch_count_covers[OF assms, of N]
  by (simp add: py_range_step_def min_def)

lemma create_with_batch_size_one_pass:
  assumes "0 < b"
  shows "create_with_batch_size sample cfg b positions rng =
     (if length positions < ong_total_nodes cfg then Inl IndexError
      else
        (case ong_process_nodes sample cfg positions [0..<ong_total_nodes cfg]
                (nx_add_nodes_from nx_empty [0..<ong_total_nodes cfg], 0, rng) of
           Inl e \<Rightarrow> Inl e
         | Inr (G', connections_added, rng') \<Rightarrow> Inr (G', rng')))"
  using assms
  by (simp add: create_with_batch_size_def Let_def ong_process_batches_concat concat_batches)

section \<open>The generators return on valid input\<close>

text \<open>
  With at least as many positions as nodes and a non-negative connection cap, no
  exception is raised: both generators return a graph
  (\<^verbatim>\<open>SimpleNetworkAnalyzer.create_network\<close> needs a positive node count, since its batch
  size is \<^verbatim>\<open>min(1000, self.total_nodes)\<close>).
\<close>

lemma ong_find_returns:
  assumes "node_idx < length positions" "0 \<le> ong_connections_per_node cfg"
  shows "\<exists>cands rng'. ong_find_geographical_neighbors sample cfg node_idx positions rng = Inr (cands, rng')"
  using assms
  by (auto simp: ong_find_geographical_neighbors_def Let_def split: prod.splits)

lemma ong_process_nodes_returns:
  assumes "\<forall>i\<in>set nodes. i < length positions" "0 \<le> ong_connections_per_node cfg"
  shows "\<exists>st'. ong_process_nodes sample cfg positions nodes st = Inr st'"
  using assms(1)
proof (induction nodes arbitrary: st)
  case Nil
  then show ?case by (simp del: split_paired_Ex)
next
  case (Cons i rest)
  obtain G n rng where st: "st = (G, n, rng)" by (cases st)
  obtain cands rng1 where
    f: "ong_find_geographical_neighbors sample cfg i positions rng = Inr (cands, rng1)"
    using ong_find_returns[OF _ assms(2), of i positions sample rng] Cons.prems by auto
  obtain G1 added where a: "ong_add_connections G i cands = (G1, added)"
    by (cases "ong_add_connections G i cands")
  have "\<exists>st'. ong_process_nodes sample cfg positions rest (G1, n + added, rng1) = Inr st'"
    using Cons.IH Cons.prems by simp
  then show ?case unfolding st using f a by simp
qed

lemma create_optimized_returns:
  assumes "ong_total_nodes cfg \<le> length positions" "0 \<le> ong_connections_per_node cfg"
  shows "\<exists>G rng'. create_geographical_network_optimized sample cfg positions rng = Inr (G, rng')"
proof -
  have pos: "(0::nat) < BATCH_SIZE" by (simp add: BATCH_SIZE_def)
  have "\<forall>i\<in>set [0..<ong_total_nodes cfg]. i < length positions" using assms(1) by auto
  from ong_process_nodes_returns[OF this assms(2)] obtain st' where
    "ong_process_nodes sample cfg positions [0..<ong_total_nodes cfg]
       (nx_add_nodes_from nx_empty [0..<ong_total_nodes cfg], 0, rng) = Inr st'"
    by blast
  then show ?thesis
    using assms(1)
    by (cases st')
       (simp add: create_geographical_network_optimized_def create_with_batch_size_one_pass[OF pos])
qed

lemma calculate_distance_nonneg: "0 \<le> calculate_distance p q"
  by (simp add: calculate_distance_def Let_def)

lemma sna_scan_returns:
  "\<exists>cands' rng'. sna_scan node_pos node_idx xs (cands, rng) = Inr (cands', rng')"
proof (induction xs arbitrary: cands rng)
  case Nil
  then show ?case by simp
next
  case (Cons x xs)
  obtain j other_pos where x: "x = (j, other_pos)" by (cases x)
  show ?case
  proof (cases "j \<noteq> node_idx \<and> calculate_distance node_pos other_pos \<le> MAX_CONNECTION_DISTANCE")
    case False
    then show ?thesis using Cons.IH[of cands rng] x by (auto simp: Let_def)
  next
    case True
    then have p: "sna_probability (calculate_distance node_pos other_pos) =
        Inr (spec_probability MAX_CONNECTION_DISTANCE DISTANCE_WEIGHT (calculate_distance node_pos other_pos))"
      by (intro sna_probability_eq calculate_distance_nonneg) simp
    obtain r rng1 where r: "random_random rng = (r, rng1)" by (cases "random_random rng")
    show ?thesis
      using Cons.IH[of "cands @ [j]" rng1] Cons.IH[of cands rng1] x True p r
      by (auto simp: Let_def)
  qed
qed

lemma sna_find_returns:
  assumes "node_idx < length positions" "0 \<le> cpn"
  shows "\<exists>cands rng'. sna_find_geographical_neighbors sample cpn node_idx positions rng = Inr (cands, rng')"
proof -
  obtain c1 rng1 where
    "sna_scan (positions ! node_idx) node_idx (enumerate 0 positions) ([], rng) = Inr (c1, rng1)"
    using sna_scan_returns by blast
  then show ?thesis using assms
    by (auto simp: sna_find_geographical_neighbors_def split: prod.splits)
qed

lemma sna_process_nodes_returns:
  assumes "\<forall>i\<in>set nodes. i < length positions" "0 \<le> cpn"
  shows "\<exists>st'. sna_process_nodes sample cpn positions nodes st = Inr st'"
  using assms(1)
proof (induction nodes arbitrary: st)
  case Nil
  then show ?case by (simp del: split_paired_Ex)
next
  case (Cons i rest)
  obtain network n rng where st: "st = (network, n, rng)" by (cases st)
  obtain cands rng1 where
    f: "sna_find_geographical_neighbors sample cpn i positions rng = Inr (cands, rng1)"
    using sna_find_returns[OF _ assms(2), of i positions sample rng] Cons.prems by auto
  obtain nw1 n1 where c: "sna_connect i cands (network, n) = (nw1, n1)"
    by (cases "sna_connect i cands (network, n)")
  have "\<exists>st'. sna_process_nodes sample cpn positions rest (nw1, n1, rng1) = Inr st'"
    using Cons.IH Cons.prems by simp
  then show ?case unfolding st using f c by simp
qed

lemma sna_process_batches_returns:
  assumes "N \<le> length positions" "0 \<le> cpn"
  shows "\<exists>st'. sna_process_batches sample N cpn positions b starts st = Inr st'"
proof (induction starts arbitrary: st)
  case Nil
  then show ?case by (simp del: split_paired_Ex)
next
  case (Cons s rest)
  have "\<forall>i\<in>set [s..<min (s + b) N]. i < length positions" using assms(1) by auto
  from sna_process_nodes_returns[OF this assms(2)] obtain st1 where
    "sna_process_nodes sample cpn positions [s..<min (s + b) N] st = Inr st1" by blast
  then show ?case using Cons.IH[of st1] by (simp add: Let_def)
qed

lemma create_network_returns:
  assumes "0 < N" "N \<le> length positions" "0 \<le> cpn"
  shows "\<exists>network rng'. create_network sample N cpn positions rng = Inr (network, rng')"
proof -
  obtain st' where
    "sna_process_batches sample N cpn positions (min 1000 N) (py_range_step N (min 1000 N))
       ((\<lambda>n. []), 0, rng) = Inr st'"
    using sna_process_batches_returns[OF assms(2,3)] by blast
  then show ?thesis using assms(1) by (cases st') (simp add: create_network_def Let_def)
qed

section \<open>Properties of the generated graph\<close>

lemma first_k_from_population: "sample_from_population first_k"
  by (auto simp: sample_from_population_def first_k_def dest: in_set_takeD)

lemma three_nodes_eq: "three_nodes = \<lparr> nx_nodes = [0, 1, 2], nx_adj = (\<lambda>n. []) \<rparr>"
proof -
  have "(\<lambda>n. [])(0 := [], Suc 0 := [], 2 := []) = (\<lambda>n::nat. ([]::nat list))" by auto
  then show ?thesis
    by (simp add: three_nodes_def nx_add_nodes_from_def upt3 nx_add_node_def nx_empty_def)
qed

lemma ong_line3_ascending:
  "ong_process_nodes first_k cfg3 line3 [0, 1, 2] (three_nodes, 0, (low_then_half, half)) =
     Inr (nx_add_edge three_nodes 0 1, 1, (half, half))"
  by (simp add: find0[simplified] find1h[simplified] find2h ong_add_connections_def
      nx_has_edge_def three_nodes_eq)

lemma ong_line3_descending:
  "ong_process_nodes first_k cfg3 line3 [2, 1, 0] (three_nodes, 0, (low_then_half, half)) =
     Inr (nx_add_edge three_nodes 2 1, 1, (half, half))"
  by (simp add: find2[simplified] find1h[simplified] find0h ong_add_connections_def
      nx_has_edge_def three_nodes_eq)

lemma adj_after_0_1: "nx_adj (nx_add_edge three_nodes 0 1) 0 = [1]"
  by (simp add: nx_add_edge_def nx_add_node_def three_nodes_eq dict_add_def Let_def)

lemma adj_after_2_1: "nx_adj (nx_add_edge three_nodes 2 1) 0 = []"
  by (simp add: nx_add_edge_def nx_add_node_def three_nodes_eq dict_add_def Let_def)

lemma create_line3:
  "create_geographical_network_optimized first_k cfg3 line3 (low_then_half, half) =
     Inr (nx_add_edge three_nodes 0 1, (half, half))"
proof -
  have pos: "(0::nat) < BATCH_SIZE" by (simp add: BATCH_SIZE_def)
  have e1: "[0..<ong_total_nodes cfg3] = [0, 1, 2]" by (simp add: cfg3_def upt3)
  have e2: "nx_add_nodes_from nx_empty [0, 1, 2] = three_nodes"
    by (simp add: three_nodes_def upt3)
  have e3: "(length line3 < ong_total_nodes cfg3) = False" by (simp add: line3_def cfg3_def)
  show ?thesis
    unfolding create_geographical_network_optimized_def
    by (simp only: create_with_batch_size_one_pass[OF pos] e1 e2 e3 if_False
        ong_line3_ascending sum.case prod.case)
qed

text \<open>
  Claim C9 as stated fails in its second half: with the same positions, parameters and
  generator state, processing the three nodes on a line in the order 0, 1, 2 (as the code
  does) adds the edge 0-1, and processing them in the order 2, 1, 0 adds the edge 1-2
  instead, because the draws are taken from one sequential stream.
\<close>

theorem processing_order_counterexample:
  "create_geographical_network_optimized first_k cfg3 line3 (low_then_half, half) =
     Inr (nx_add_edge three_nodes 0 1, (half, half)) \<and>
   ong_process_nodes first_k cfg3 line3 [0, 1, 2] (three_nodes, 0, (low_then_half, half)) =
     Inr (nx_add_edge three_nodes 0 1, 1, (half, half)) \<and>
   ong_process_nodes first_k cfg3 line3 [2, 1, 0] (three_nodes, 0, (low_then_half, half)) =
     Inr (nx_add_edge three_nodes 2 1, 1, (half, half)) \<and>
   nx_edges (nx_add_edge three_nodes 0 1) \<noteq> nx_edges (nx_add_edge three_nodes 2 1)"
proof -
  have "(0, 1) \<in> nx_edges (nx_add_edge three_nodes 0 1)"
    by (simp add: nx_edges_def adj_after_0_1[simplified])
  moreover have "(0, 1) \<notin> nx_edges (nx_add_edge three_nodes 2 1)"
    by (simp add: nx_edges_def adj_after_2_1[simplified])
  ultimately have "nx_edges (nx_add_edge three_nodes 0 1) \<noteq> nx_edges (nx_add_edge three_nodes 2 1)"
    by metis
  then show ?thesis using create_line3 ong_line3_ascending ong_line3_descending by simp
qed

text \<open>
  Claim C9 (amended): for fixed positions, parameters and generator state, the graph
  built with any positive batch size is the graph built with the batch size of the
  code; the nodes are processed in ascending order whatever the batch boundaries are.
\<close>

theorem batch_size_has_no_effect:
  assumes "0 < batch_size"
  shows "create_with_batch_size sample cfg batch_size positions rng =
           create_geographical_network_optimized sample cfg positions rng"
proof -
  have "(0::nat) < BATCH_SIZE" by (simp add: BATCH_SIZE_def)
  then show ?thesis
    unfolding create_geographical_network_optimized_def
    by (simp only: create_with_batch_size_one_pass[OF assms] create_with_batch_size_one_pass)
qed

text \<open>
  The hypothesis of the theorem for C9 holds for batch size 1.
\<close>

theorem batch_size_has_no_effect_witness:
  "(0::nat) < 1 \<and>
   create_with_batch_size first_k cfg3 1 line3 (low_then_half, half) =
     Inr (nx_add_edge three_nodes 0 1, (half, half))"
proof -
  have a: "(0::nat) < 1" by simp
  show ?thesis
    using a batch_size_has_no_effect[OF a, of first_k cfg3 line3 "(low_then_half, half)"]
      create_line3 by simp
qed

lemma twin_scan0:
  "sna_find_geographical_neighbors first_k 20 0 twin_positions zeros = Inr ([1], zeros)"
  by (simp add: sna_find_geographical_neighbors_def twin_positions_def enumerate_eq_zip upt_rec
      calculate_distance_def MAX_CONNECTION_DISTANCE_def sna_probability_def math_pow_def
      DISTANCE_WEIGHT_def random_random_def zeros_def)

lemma twin_scan1:
  "sna_find_geographical_neighbors first_k 20 1 twin_positions zeros = Inr ([0], zeros)"
  by (simp add: sna_find_geographical_neighbors_def twin_positions_def enumerate_eq_zip upt_rec
      calculate_distance_def MAX_CONNECTION_DISTANCE_def sna_probability_def math_pow_def
      DISTANCE_WEIGHT_def random_random_def zeros_def)

lemma create_network_twins:
  "create_network first_k 2 20 twin_positions zeros =
     Inr ((\<lambda>n. [])(0 := [1], 1 := [0]), zeros)"
proof -
  have r: "py_range_step 2 2 = [0]" by (simp add: py_range_step_def)
  have u: "[0..<2] = [0, 1]" by (simp add: upt_rec)
  show ?thesis
    by (simp add: create_network_def r u Let_def twin_scan0[simplified] twin_scan1[simplified])
qed

text \<open>
  Claim C1: every graph that \<^verbatim>\<open>OptimizedNetworkGenerator.create_geographical_network_optimized\<close> or
  \<^verbatim>\<open>SimpleNetworkAnalyzer.create_network\<close> returns has an adjacency structure without
  self-loops, symmetric, and without duplicate entries.
\<close>

theorem generated_graph_is_simple:
  assumes "sample_from_population sample"
  shows "(create_geographical_network_optimized sample cfg positions rng = Inr (G, rng') \<longrightarrow>
            simple_adjacency (nx_adj G)) \<and>
         (create_network sample total_nodes connections_per_node positions2 rng2 = Inr (network, rng2') \<longrightarrow>
            simple_adjacency network)"
  using nx_inv_create[OF assms] simple_adjacency_create_network[OF assms]
  by (auto simp: create_geographical_network_optimized_def nx_inv_def)

text \<open>
  The hypotheses of the theorem for C1 hold on the example inputs: both generators
  return a graph there.
\<close>

theorem generated_graph_is_simple_witness:
  "sample_from_population first_k \<and>
   create_geographical_network_optimized first_k cfg3 line3 (low_then_half, half) =
     Inr (nx_add_edge three_nodes 0 1, (half, half)) \<and>
   simple_adjacency (nx_adj (nx_add_edge three_nodes 0 1)) \<and>
   create_network first_k 2 20 twin_positions zeros =
     Inr ((\<lambda>n. [])(0 := [1], 1 := [0]), zeros) \<and>
   simple_adjacency ((\<lambda>n. [])(0 := [1], 1 := [0]))"
  using first_k_from_population create_line3 create_network_twins
    generated_graph_is_simple[OF first_k_from_population,
      of cfg3 line3 "(low_then_half, half)" "nx_add_edge three_nodes 0 1" "(half, half)"
         2 20 twin_positions zeros "(\<lambda>n. [])(0 := [1], 1 := [0])" zeros]
  by simp

end
